theory Spec2Isabelle
  imports Main
begin

section \<open>The report view (frontend/src/pages/ReportPage.jsx)\<close>

text \<open>
  The report page is a React function component. Its state variables, its two refs and
  the local variables of one \<^verbatim>\<open>handleReanalyze\<close> invocation are the fields of
  one record; the browser's event loop (pending timers, requests in flight) is part of the
  same record, and every call that leaves the component (API calls, timer calls, state
  setters, console) is appended to a trace. An asynchronous function is cut at its
  \<^verbatim>\<open>await\<close>s: each piece between two of them is one definition, run when the
  event loop delivers the awaited completion.
\<close>

subsection \<open>Data\<close>

text \<open>The \<^verbatim>\<open>status\<close> strings of a reference record.\<close>

datatype status = Queued | Processing | Completed | Failed

text \<open>
  \<^verbatim>\<open>response.data\<close> of \<^verbatim>\<open>GET /api/references/:id\<close>: an object with the fields
  \<^verbatim>\<open>reference\<close> (read through \<^verbatim>\<open>?.\<close> by the refresher, hence optional) and
  \<^verbatim>\<open>report\<close>. Only \<^verbatim>\<open>reference.status\<close> is read by the control logic; the
  remaining content is kept opaque.
\<close>

record reference_rec =
  status :: status
  title :: string

record response_data =
  reference :: "reference_rec option"
  report :: nat

text \<open>
  Where a \<^verbatim>\<open>handleReanalyze\<close> invocation is suspended, or how it returned:
  \<^item> \<open>PIdle\<close>: no invocation yet;
  \<^item> \<open>PTriggering\<close>: at \<^verbatim>\<open>await referenceAPI.reanalyze(id)\<close>;
  \<^item> \<open>PSettling\<close>: at \<^verbatim>\<open>await new Promise(resolve => setTimeout(resolve, 2000))\<close>;
  \<^item> \<open>PFetching\<close>: at \<^verbatim>\<open>await referenceAPI.getReference(id)\<close> in \<^verbatim>\<open>pollForResults\<close>;
  \<^item> \<open>PWaiting\<close>: at \<^verbatim>\<open>await new Promise(resolve => setTimeout(resolve, 1000))\<close>;
  \<^item> \<open>PSucceeded\<close>: returned through the end of the \<^verbatim>\<open>try\<close> block;
  \<^item> \<open>PFailed\<close>: returned through the outer \<^verbatim>\<open>catch (err)\<close>.
\<close>

datatype phase = PIdle | PTriggering | PSettling | PFetching | PWaiting | PSucceeded | PFailed

text \<open>
  The callback of a pending timer. The refresher's callback is a closure over the
  \<^verbatim>\<open>data\<close> and \<^verbatim>\<open>id\<close> of the render that installed the effect.
\<close>

datatype timer =
    SettlingDelay
  | InterPollDelay
  | SuccessClear
  | RefreshTick "response_data option" nat

text \<open>Who called \<^verbatim>\<open>referenceAPI.getReference\<close>.\<close>

datatype caller = Effect | Refresher | Poller

datatype action =
    GetReference nat caller
  | Reanalyze nat
  | SetTimeout nat nat
  | SetInterval nat nat
  | ClearTimeout nat
  | ClearInterval nat
  | ConsoleError
  | SetData response_data
  | SetLoading bool
  | SetError string
  | SetReanalyzing bool
  | SetShowSuccessMessage bool

record page =
  route_id :: nat
  data :: "response_data option"
  loading :: bool
  error :: string
  reanalyzing :: bool
  showSuccessMessage :: bool
  isMounted :: bool
  successTimeoutRef :: "nat option"
  interval :: nat
  phase :: phase
  attempts :: nat
  poll_id :: nat
  timers :: "(nat \<times> timer) list"
  next_timer :: nat
  pending_reports :: nat
  trace :: "action list"

text \<open>
  \<open>route_id\<close> is \<^verbatim>\<open>const { id } = useParams()\<close>; \<open>interval\<close> is the handle held by
  the current effect's cleanup closure; \<open>attempts\<close> and \<open>poll_id\<close> are the
  \<^verbatim>\<open>attempts\<close> counter and the \<^verbatim>\<open>id\<close> seen by the running
  \<^verbatim>\<open>handleReanalyze\<close>; \<open>timers\<close> are the pending timers by handle (handles are
  positive, as in a browser, so a stored handle is truthy); \<open>pending_reports\<close> counts
  the \<^verbatim>\<open>fetchReport\<close> requests in flight.
\<close>

definition maxAttempts :: nat where
  "maxAttempts = 15"

subsection \<open>Setters, timers and the console\<close>

definition log :: "action \<Rightarrow> page \<Rightarrow> page" where
  "log a s = s\<lparr>trace := trace s @ [a]\<rparr>"

definition setData :: "response_data \<Rightarrow> page \<Rightarrow> page" where
  "setData d s = log (SetData d) (s\<lparr>data := Some d\<rparr>)"

definition setLoading :: "bool \<Rightarrow> page \<Rightarrow> page" where
  "setLoading b s = log (SetLoading b) (s\<lparr>loading := b\<rparr>)"

definition setError :: "string \<Rightarrow> page \<Rightarrow> page" where
  "setError m s = log (SetError m) (s\<lparr>error := m\<rparr>)"

definition setReanalyzing :: "bool \<Rightarrow> page \<Rightarrow> page" where
  "setReanalyzing b s = log (SetReanalyzing b) (s\<lparr>reanalyzing := b\<rparr>)"

definition setShowSuccessMessage :: "bool \<Rightarrow> page \<Rightarrow> page" where
  "setShowSuccessMessage b s = log (SetShowSuccessMessage b) (s\<lparr>showSuccessMessage := b\<rparr>)"

text \<open>\<^verbatim>\<open>setTimeout\<close> returns the handle \<open>next_timer s\<close>.\<close>

definition setTimeout :: "timer \<Rightarrow> nat \<Rightarrow> page \<Rightarrow> page" where
  "setTimeout k ms s =
     log (SetTimeout (next_timer s) ms)
       (s\<lparr>timers := (next_timer s, k) # timers s, next_timer := Suc (next_timer s)\<rparr>)"

definition setInterval :: "timer \<Rightarrow> nat \<Rightarrow> page \<Rightarrow> page" where
  "setInterval k ms s =
     log (SetInterval (next_timer s) ms)
       (s\<lparr>timers := (next_timer s, k) # timers s, next_timer := Suc (next_timer s)\<rparr>)"

fun other_handle :: "nat \<Rightarrow> nat \<times> timer \<Rightarrow> bool" where
  "other_handle t (u, k) = (u \<noteq> t)"

definition drop_timer :: "nat \<Rightarrow> page \<Rightarrow> page" where
  "drop_timer t s = s\<lparr>timers := filter (other_handle t) (timers s)\<rparr>"

definition clearTimeout :: "nat \<Rightarrow> page \<Rightarrow> page" where
  "clearTimeout t s = log (ClearTimeout t) (drop_timer t s)"

definition clearInterval :: "nat \<Rightarrow> page \<Rightarrow> page" where
  "clearInterval t s = log (ClearInterval t) (drop_timer t s)"

subsection \<open>fetchReport\<close>

text \<open>
  \<^verbatim>\<open>
  const fetchReport = async () => {
    try {
      const response = await referenceAPI.getReference(id);
      if (isMounted.current) { setData(response.data); setLoading(false); }
    } catch (err) {
      if (isMounted.current) { setError('Failed to load report'); setLoading(false); }
    }
  };
  \<close>
\<close>

definition fetchReport :: "caller \<Rightarrow> nat \<Rightarrow> page \<Rightarrow> page" where
  "fetchReport c i s = log (GetReference i c) (s\<lparr>pending_reports := Suc (pending_reports s)\<rparr>)"

definition fetchReport_resolved :: "response_data \<Rightarrow> page \<Rightarrow> page" where
  "fetchReport_resolved d s =
     (let s1 = s\<lparr>pending_reports := pending_reports s - 1\<rparr> in
      if isMounted s1 then setLoading False (setData d s1) else s1)"

definition fetchReport_rejected :: "page \<Rightarrow> page" where
  "fetchReport_rejected s =
     (let s1 = s\<lparr>pending_reports := pending_reports s - 1\<rparr> in
      if isMounted s1 then setLoading False (setError ''Failed to load report'' s1) else s1)"

subsection \<open>The effect and its cleanup\<close>

text \<open>
  \<^verbatim>\<open>
  useEffect(() => {
    isMounted.current = true;
    fetchReport();
    const interval = setInterval(() => {
      if (data?.reference?.status === 'processing') { fetchReport(); }
    }, 3000);
    return () => {
      isMounted.current = false;
      clearInterval(interval);
      if (successTimeoutRef.current) { clearTimeout(successTimeoutRef.current); }
    };
  }, [id]);
  \<close>
\<close>

definition effect :: "page \<Rightarrow> page" where
  "effect s =
     (let s1 = s\<lparr>isMounted := True\<rparr>;
          s2 = fetchReport Effect (route_id s1) s1;
          s3 = s2\<lparr>interval := next_timer s2\<rparr>
      in setInterval (RefreshTick (data s) (route_id s)) 3000 s3)"

definition cleanup :: "page \<Rightarrow> page" where
  "cleanup s =
     (let s1 = s\<lparr>isMounted := False\<rparr>;
          s2 = clearInterval (interval s1) s1
      in case successTimeoutRef s2 of
           None \<Rightarrow> s2
         | Some t \<Rightarrow> clearTimeout t s2)"

text \<open>\<^verbatim>\<open>data?.reference?.status === 'processing'\<close>\<close>

fun is_processing :: "response_data option \<Rightarrow> bool" where
  "is_processing None = False"
| "is_processing (Some d) =
     (case reference d of None \<Rightarrow> False | Some r \<Rightarrow> status r = Processing)"

definition refresh_tick :: "response_data option \<Rightarrow> nat \<Rightarrow> page \<Rightarrow> page" where
  "refresh_tick captured i s = (if is_processing captured then fetchReport Refresher i s else s)"

text \<open>The first render and the first run of the effect.\<close>

definition mount :: "nat \<Rightarrow> page" where
  "mount i = effect
     \<lparr>route_id = i, data = None, loading = True, error = [], reanalyzing = False,
      showSuccessMessage = False, isMounted = True, successTimeoutRef = None, interval = 0,
      phase = PIdle, attempts = 0, poll_id = i, timers = [], next_timer = 1,
      pending_reports = 0, trace = []\<rparr>"

subsection \<open>handleReanalyze and pollForResults\<close>

text \<open>
  \<^verbatim>\<open>
  const handleReanalyze = async () => {
    setReanalyzing(true); setError(''); setShowSuccessMessage(false);
    try {
      await referenceAPI.reanalyze(id);
      await new Promise(resolve => setTimeout(resolve, 2000));
      let attempts = 0;
      const maxAttempts = 15;
      const pollForResults = async () => {
        try {
          const response = await referenceAPI.getReference(id);
          if (response.data.reference.status === 'processing' && attempts < maxAttempts) {
            attempts++;
            await new Promise(resolve => setTimeout(resolve, 1000));
            return pollForResults();
          }
          if (isMounted.current) { setData(response.data); }
        } catch (pollError) {
          console.error('Polling error:', pollError);
          if (isMounted.current) {
            setError('Analysis may still be in progress. Please refresh.');
          }
        }
      };
      await pollForResults();
      if (isMounted.current) {
        setShowSuccessMessage(true);
        successTimeoutRef.current = setTimeout(() => {
          if (isMounted.current) { setShowSuccessMessage(false); }
        }, 3000);
      }
    } catch (err) {
      if (isMounted.current) {
        setError('Failed to reanalyze. Please try again.');
        console.error('Reanalyze error:', err);
      }
    } finally {
      if (isMounted.current) { setReanalyzing(false); }
    }
  };
  \<close>
\<close>

text \<open>Up to the first \<^verbatim>\<open>await\<close>.\<close>

definition handleReanalyze :: "page \<Rightarrow> page" where
  "handleReanalyze s =
     (let s1 = setShowSuccessMessage False (setError [] (setReanalyzing True s))
      in log (Reanalyze (route_id s1)) (s1\<lparr>poll_id := route_id s1, phase := PTriggering\<rparr>))"

text \<open>The \<^verbatim>\<open>finally\<close> block.\<close>

definition finally_block :: "page \<Rightarrow> page" where
  "finally_block s = (if isMounted s then setReanalyzing False s else s)"

text \<open>\<^verbatim>\<open>reanalyze\<close> resolved: start the settling delay.\<close>

definition reanalyze_resolved :: "page \<Rightarrow> page" where
  "reanalyze_resolved s = setTimeout SettlingDelay 2000 (s\<lparr>phase := PSettling\<rparr>)"

text \<open>\<^verbatim>\<open>reanalyze\<close> rejected: the outer \<^verbatim>\<open>catch\<close>, then \<^verbatim>\<open>finally\<close>.\<close>

definition reanalyze_rejected :: "page \<Rightarrow> page" where
  "reanalyze_rejected s =
     (let s1 = (if isMounted s
                then log ConsoleError (setError ''Failed to reanalyze. Please try again.'' s)
                else s)
      in finally_block (s1\<lparr>phase := PFailed\<rparr>))"

text \<open>A call of \<^verbatim>\<open>pollForResults\<close>, up to its \<^verbatim>\<open>await\<close>.\<close>

definition pollForResults :: "page \<Rightarrow> page" where
  "pollForResults s = log (GetReference (poll_id s) Poller) (s\<lparr>phase := PFetching\<rparr>)"

text \<open>The settling delay elapsed: \<^verbatim>\<open>let attempts = 0\<close>, then the first poll.\<close>

definition settled :: "page \<Rightarrow> page" where
  "settled s = pollForResults (s\<lparr>attempts := 0\<rparr>)"

text \<open>
  After \<^verbatim>\<open>await pollForResults()\<close> returned (it never rejects: its body is one
  \<^verbatim>\<open>try/catch\<close>): the success block, then \<^verbatim>\<open>finally\<close>.
\<close>

definition after_poll :: "page \<Rightarrow> page" where
  "after_poll s =
     (let s1 = (if isMounted s
                then setTimeout SuccessClear 3000
                       ((setShowSuccessMessage True s)\<lparr>successTimeoutRef := Some (next_timer s)\<rparr>)
                else s)
      in finally_block (s1\<lparr>phase := PSucceeded\<rparr>))"

text \<open>The \<^verbatim>\<open>catch (pollError)\<close> block; \<^verbatim>\<open>pollForResults\<close> then returns.\<close>

definition poll_catch :: "page \<Rightarrow> page" where
  "poll_catch s =
     (let s1 = log ConsoleError s
      in after_poll
           (if isMounted s1
            then setError ''Analysis may still be in progress. Please refresh.'' s1
            else s1))"

text \<open>
  \<^verbatim>\<open>getReference\<close> resolved inside \<^verbatim>\<open>pollForResults\<close>. Reading
  \<^verbatim>\<open>.status\<close> of a missing \<^verbatim>\<open>reference\<close> throws inside the \<^verbatim>\<open>try\<close>.
\<close>

definition poll_resolved :: "response_data \<Rightarrow> page \<Rightarrow> page" where
  "poll_resolved d s =
     (case reference d of
        None \<Rightarrow> poll_catch s
      | Some r \<Rightarrow>
          if status r = Processing \<and> attempts s < maxAttempts
          then setTimeout InterPollDelay 1000 (s\<lparr>attempts := Suc (attempts s), phase := PWaiting\<rparr>)
          else after_poll (if isMounted s then setData d s else s))"

definition success_clear :: "page \<Rightarrow> page" where
  "success_clear s = (if isMounted s then setShowSuccessMessage False s else s)"

subsection \<open>Rendering\<close>

text \<open>
  What the component returns, by the order of its early returns. \<open>Report\<close> carries the
  two banners of the full report: whether the success message is shown and the error text
  (shown when non-empty). Destructuring a null \<^verbatim>\<open>data\<close> or reading the status of a
  missing \<^verbatim>\<open>reference\<close> throws.
\<close>

datatype screen =
    Spinner
  | ErrorPanel string
  | InProgress
  | AnalysisFailed
  | Report bool string
  | RenderThrows

definition render :: "page \<Rightarrow> screen" where
  "render s =
     (if loading s then Spinner
      else if error s \<noteq> [] \<and> data s = None then ErrorPanel (error s)
      else case data s of
             None \<Rightarrow> RenderThrows
           | Some d \<Rightarrow>
               (case reference d of
                  None \<Rightarrow> RenderThrows
                | Some r \<Rightarrow>
                    if status r = Processing \<or> reanalyzing s then InProgress
                    else if status r = Failed then AnalysisFailed
                    else Report (showSuccessMessage s) (error s)))"

text \<open>The screens with a button whose \<^verbatim>\<open>onClick\<close> is \<^verbatim>\<open>handleReanalyze\<close>.\<close>

fun has_button :: "screen \<Rightarrow> bool" where
  "has_button AnalysisFailed = True"
| "has_button (Report b e) = True"
| "has_button _ = False"

text \<open>The button is \<^verbatim>\<open>disabled={reanalyzing}\<close>, and exists only while the view is attached.\<close>

definition clickable :: "page \<Rightarrow> bool" where
  "clickable s = (isMounted s \<and> has_button (render s) \<and> \<not> reanalyzing s)"

subsection \<open>The event loop\<close>

datatype event =
    Click
  | TriggerResolved
  | TriggerRejected
  | PollResolved response_data
  | PollRejected
  | ReportResolved response_data
  | ReportRejected
  | TimerFired nat
  | Navigate nat
  | Unmount

text \<open>
  A timer fires: a timeout is removed from the pending ones, the interval stays.
\<close>

fun timer_callback :: "nat \<Rightarrow> timer \<Rightarrow> page \<Rightarrow> page" where
  "timer_callback t SettlingDelay s = settled (drop_timer t s)"
| "timer_callback t InterPollDelay s = pollForResults (drop_timer t s)"
| "timer_callback t SuccessClear s = success_clear (drop_timer t s)"
| "timer_callback t (RefreshTick captured i) s = refresh_tick captured i s"

text \<open>
  One turn of the event loop. A completion nobody waits for changes nothing. A change
  of the route parameter re-renders with the new \<^verbatim>\<open>id\<close>, runs the cleanup of the
  old effect and then the effect again (its dependency list is \<^verbatim>\<open>[id]\<close>); the state
  variables survive. \<open>Unmount\<close> runs the cleanup; afterwards the view has neither buttons
  nor a route.
\<close>

fun step :: "event \<Rightarrow> page \<Rightarrow> page" where
  "step Click s = (if clickable s then handleReanalyze s else s)"
| "step TriggerResolved s = (if phase s = PTriggering then reanalyze_resolved s else s)"
| "step TriggerRejected s = (if phase s = PTriggering then reanalyze_rejected s else s)"
| "step (PollResolved d) s = (if phase s = PFetching then poll_resolved d s else s)"
| "step PollRejected s = (if phase s = PFetching then poll_catch s else s)"
| "step (ReportResolved d) s = (if 0 < pending_reports s then fetchReport_resolved d s else s)"
| "step ReportRejected s = (if 0 < pending_reports s then fetchReport_rejected s else s)"
| "step (TimerFired t) s =
     (case map_of (timers s) t of None \<Rightarrow> s | Some k \<Rightarrow> timer_callback t k s)"
| "step (Navigate j) s =
     (if isMounted s \<and> j \<noteq> route_id s then effect ((cleanup s)\<lparr>route_id := j\<rparr>) else s)"
| "step Unmount s = (if isMounted s then cleanup s else s)"

fun run :: "event list \<Rightarrow> page \<Rightarrow> page" where
  "run [] s = s"
| "run (e # es) s = run es (step e s)"

subsection \<open>Reading the trace and the state\<close>

text \<open>The state a render reads.\<close>

definition view :: "page \<Rightarrow> response_data option \<times> bool \<times> string \<times> bool \<times> bool" where
  "view s = (data s, loading s, error s, reanalyzing s, showSuccessMessage s)"

fun is_mutation :: "action \<Rightarrow> bool" where
  "is_mutation (SetData d) = True"
| "is_mutation (SetLoading b) = True"
| "is_mutation (SetError m) = True"
| "is_mutation (SetReanalyzing b) = True"
| "is_mutation (SetShowSuccessMessage b) = True"
| "is_mutation _ = False"

definition mutations :: "action list \<Rightarrow> action list" where
  "mutations tr = filter is_mutation tr"

fun is_setData :: "action \<Rightarrow> bool" where
  "is_setData (SetData d) = True"
| "is_setData _ = False"

fun is_fetch_by :: "caller \<Rightarrow> action \<Rightarrow> bool" where
  "is_fetch_by c (GetReference i c') = (c' = c)"
| "is_fetch_by c _ = False"

definition fetches_by :: "caller \<Rightarrow> action list \<Rightarrow> nat" where
  "fetches_by c tr = length (filter (is_fetch_by c) tr)"

fun is_fetch :: "action \<Rightarrow> bool" where
  "is_fetch (GetReference i c) = True"
| "is_fetch _ = False"

definition fetches :: "action list \<Rightarrow> nat" where
  "fetches tr = length (filter is_fetch tr)"

text \<open>
  The poller's calls in the order made: a \<open>Fetch\<close> for each of its
  \<^verbatim>\<open>getReference\<close> calls, a \<open>Wait ms\<close> for each \<^verbatim>\<open>setTimeout\<close>.
\<close>

datatype poll_obs = Fetch | Wait nat

fun observe :: "action \<Rightarrow> poll_obs list" where
  "observe (GetReference i Poller) = [Fetch]"
| "observe (SetTimeout t ms) = [Wait ms]"
| "observe _ = []"

definition schedule :: "action list \<Rightarrow> poll_obs list" where
  "schedule tr = concat (map observe tr)"

text \<open>What one event appended to the trace.\<close>

definition appended :: "page \<Rightarrow> page \<Rightarrow> action list" where
  "appended s s' = drop (length (trace s)) (trace s')"

fun is_refresh :: "nat \<times> timer \<Rightarrow> bool" where
  "is_refresh (t, RefreshTick captured i) = True"
| "is_refresh (t, _) = False"

definition pending_refreshers :: "page \<Rightarrow> (nat \<times> timer) list" where
  "pending_refreshers s = filter is_refresh (timers s)"

fun is_navigate :: "event \<Rightarrow> bool" where
  "is_navigate (Navigate j) = True"
| "is_navigate _ = False"

fun is_click :: "event \<Rightarrow> bool" where
  "is_click Click = True"
| "is_click _ = False"

fun terminal :: "response_data \<Rightarrow> bool" where
  "terminal d =
     (case reference d of
        None \<Rightarrow> False
      | Some r \<Rightarrow> status r = Completed \<or> status r = Failed)"

definition processing :: "response_data \<Rightarrow> bool" where
  "processing d = is_processing (Some d)"

subsection \<open>One reanalysis cycle against a scripted backend\<close>

text \<open>
  A cycle nothing else interleaves with: the outcomes of the successive
  \<^verbatim>\<open>getReference\<close> calls of \<^verbatim>\<open>pollForResults\<close> are given as a list, and
  each timer the cycle sets fires before anything else happens. The poll loop takes one
  outcome per call; it stops consuming when \<^verbatim>\<open>pollForResults\<close> returns, and with
  the outcomes used up it stays suspended at its \<^verbatim>\<open>await\<close>.
\<close>

datatype outcome = Resolves response_data | Rejects

fun settles :: "outcome \<Rightarrow> event" where
  "settles (Resolves d) = PollResolved d"
| "settles Rejects = PollRejected"

text \<open>The handle returned by the latest \<^verbatim>\<open>setTimeout\<close>.\<close>

definition newest :: "page \<Rightarrow> nat" where
  "newest s = next_timer s - 1"

fun pollLoop :: "outcome list \<Rightarrow> page \<Rightarrow> page" where
  "pollLoop [] s = s"
| "pollLoop (r # rs) s =
     (if phase s = PFetching
      then (let s1 = step (settles r) s
            in if phase s1 = PWaiting
               then pollLoop rs (step (TimerFired (newest s1)) s1)
               else s1)
      else s)"

definition run_cycle :: "bool \<Rightarrow> outcome list \<Rightarrow> page \<Rightarrow> page" where
  "run_cycle trigger_ok rs s =
     (let s1 = step Click s
      in if trigger_ok
         then (let s2 = step TriggerResolved s1
               in pollLoop rs (step (TimerFired (newest s2)) s2))
         else step TriggerRejected s1)"

subsection \<open>Invariants of the timers\<close>

text \<open>
  A refresher callback that captured no record; a view whose every pending refresher
  callback is such and whose refresher has made no call.
\<close>

fun idle_tick :: "nat \<times> timer \<Rightarrow> bool" where
  "idle_tick (t, RefreshTick captured i) = (captured = None)"
| "idle_tick (t, _) = True"

definition never_refreshed :: "page \<Rightarrow> bool" where
  "never_refreshed s = (list_all idle_tick (timers s) \<and> fetches_by Refresher (trace s) = 0)"

text \<open>
  The handles the cleanup clears are the right ones: a pending refresher interval has the
  handle the cleanup closure holds, and the handle in \<^verbatim>\<open>successTimeoutRef\<close> was
  returned by an earlier \<^verbatim>\<open>setTimeout\<close>.
\<close>

fun refresh_is :: "nat \<Rightarrow> nat \<times> timer \<Rightarrow> bool" where
  "refresh_is h (t, RefreshTick captured i) = (t = h)"
| "refresh_is h (t, _) = True"

fun below :: "nat \<Rightarrow> nat option \<Rightarrow> bool" where
  "below n None = True"
| "below n (Some t) = (t < n)"

definition handles_ok :: "page \<Rightarrow> bool" where
  "handles_ok s =
     (list_all (refresh_is (interval s)) (timers s) \<and> below (next_timer s) (successTimeoutRef s))"

text \<open>The timer of a stored handle is no longer pending.\<close>

fun cleared :: "(nat \<times> timer) list \<Rightarrow> nat option \<Rightarrow> bool" where
  "cleared ts None = True"
| "cleared ts (Some t) = (map_of ts t = None)"

fun one_shot :: "nat \<times> timer \<Rightarrow> bool" where
  "one_shot (t, RefreshTick captured i) = False"
| "one_shot (t, _) = True"

text \<open>The view after its cleanup ran.\<close>

definition detached :: "page \<Rightarrow> bool" where
  "detached s =
     (\<not> isMounted s \<and> list_all one_shot (timers s) \<and>
      below (next_timer s) (successTimeoutRef s) \<and> cleared (timers s) (successTimeoutRef s))"

text \<open>What \<^verbatim>\<open>if (successTimeoutRef.current) clearTimeout(...)\<close> removes and logs.\<close>

fun without :: "nat option \<Rightarrow> (nat \<times> timer) list \<Rightarrow> (nat \<times> timer) list" where
  "without None ts = ts"
| "without (Some t) ts = filter (other_handle t) ts"

fun clear_log :: "nat option \<Rightarrow> action list" where
  "clear_log None = []"
| "clear_log (Some t) = [ClearTimeout t]"

subsection \<open>One invocation at a time\<close>

text \<open>
  The timers a \<^verbatim>\<open>handleReanalyze\<close> invocation waits on, the phases in which an
  invocation is suspended, and the fit between the two: at most one such timer is pending,
  and it is the one the current phase awaits. While an invocation is suspended on an
  attached view the button is disabled.
\<close>

fun poller_timer :: "nat \<times> timer \<Rightarrow> bool" where
  "poller_timer (t, SettlingDelay) = True"
| "poller_timer (t, InterPollDelay) = True"
| "poller_timer (t, _) = False"

fun in_flight :: "phase \<Rightarrow> bool" where
  "in_flight PTriggering = True"
| "in_flight PSettling = True"
| "in_flight PFetching = True"
| "in_flight PWaiting = True"
| "in_flight _ = False"

fun awaited :: "phase \<Rightarrow> (nat \<times> timer) list \<Rightarrow> bool" where
  "awaited p [] = True"
| "awaited p [(t, k)] = ((p = PSettling \<and> k = SettlingDelay) \<or> (p = PWaiting \<and> k = InterPollDelay))"
| "awaited p _ = False"

definition one_cycle :: "page \<Rightarrow> bool" where
  "one_cycle s =
     (awaited (phase s) (filter poller_timer (timers s)) \<and>
      (if isMounted s \<and> in_flight (phase s) then reanalyzing s else True))"

fun is_trigger :: "event \<Rightarrow> bool" where
  "is_trigger TriggerResolved = True"
| "is_trigger TriggerRejected = True"
| "is_trigger _ = False"

text \<open>
  Handles are handed out in increasing order, so the handles the cleanup holds are not
  those of the timers a \<^verbatim>\<open>handleReanalyze\<close> invocation waits on.
\<close>

fun fresh_below :: "nat \<Rightarrow> nat \<times> timer \<Rightarrow> bool" where
  "fresh_below n (t, k) = (t < n)"

fun kept :: "nat \<Rightarrow> nat option \<Rightarrow> nat \<times> timer \<Rightarrow> bool" where
  "kept h r (t, k) = (if poller_timer (t, k) then t \<noteq> h \<and> r \<noteq> Some t else True)"

definition handles_fresh :: "page \<Rightarrow> bool" where
  "handles_fresh s =
     (list_all (fresh_below (next_timer s)) (timers s) \<and> interval s < next_timer s \<and>
      below (next_timer s) (successTimeoutRef s) \<and>
      list_all (kept (interval s) (successTimeoutRef s)) (timers s))"

text \<open>
  An event that changes the route parameter away from \<open>i\<close>. The interval of the first
  mount has handle 1: a pending timer with that handle is the callback that captured no
  record.
\<close>

fun changes_id :: "nat \<Rightarrow> event \<Rightarrow> bool" where
  "changes_id i (Navigate j) = (j \<noteq> i)"
| "changes_id i _ = False"

fun first_tick :: "nat \<Rightarrow> nat \<times> timer \<Rightarrow> bool" where
  "first_tick i (t, k) = (if t = 1 then k = RefreshTick None i else True)"

definition first_interval :: "nat \<Rightarrow> page \<Rightarrow> bool" where
  "first_interval i s = (1 < next_timer s \<and> list_all (first_tick i) (timers s))"

subsection \<open>Sample records and views\<close>

definition done_data :: response_data where
  "done_data = \<lparr>reference = Some \<lparr>status = Completed, title = ''Paper''\<rparr>, report = 7\<rparr>"

definition busy_data :: response_data where
  "busy_data = \<lparr>reference = Some \<lparr>status = Processing, title = ''Paper''\<rparr>, report = 0\<rparr>"

text \<open>Report 1 is open and its completed record is displayed.\<close>

definition ready :: page where
  "ready = run [ReportResolved done_data] (mount 1)"

text \<open>
  Report 1 was open showing a \<open>processing\<close> record when the route changed to report
  2; its completed record is displayed, the user clicked Reanalyze, the trigger was
  accepted, the settling delay elapsed and the poller's first call is in flight.
\<close>

definition overlapped :: page where
  "overlapped = run [ReportResolved busy_data, Navigate 2, ReportResolved done_data, Click,
     TriggerResolved, TimerFired 3] (mount 1)"

text \<open>Report 1 is displayed, the user clicked Reanalyze and the trigger was accepted.\<close>

definition settling :: page where
  "settling = run [ReportResolved done_data, Click, TriggerResolved] (mount 1)"

subsection \<open>Closed forms of the stages of a cycle\<close>

text \<open>
  The state after one round of the poll loop (a \<open>processing\<close> answer below the
  budget, the inter-poll delay, the next call), and the state after a click, an accepted
  trigger and the settling delay, when the first call of \<^verbatim>\<open>pollForResults\<close>
  is in flight.
\<close>

definition polled_once :: "page \<Rightarrow> page" where
  "polled_once s = s\<lparr>attempts := Suc (attempts s), phase := PFetching,
           timers := filter (other_handle (next_timer s)) (timers s),
           next_timer := Suc (next_timer s),
           trace := trace s @ [SetTimeout (next_timer s) 1000, GetReference (poll_id s) Poller]\<rparr>"

definition started :: "page \<Rightarrow> page" where
  "started s = s\<lparr>reanalyzing := True, error := [], showSuccessMessage := False,
       poll_id := route_id s, phase := PFetching, attempts := 0,
       timers := filter (other_handle (next_timer s)) (timers s),
       next_timer := Suc (next_timer s),
       trace := trace s @ [SetReanalyzing True, SetError [], SetShowSuccessMessage False,
         Reanalyze (route_id s), SetTimeout (next_timer s) 2000,
         GetReference (route_id s) Poller]\<rparr>"

text \<open>
  An answer after which \<^verbatim>\<open>pollForResults\<close> does not call itself again, given the
  value of \<^verbatim>\<open>attempts\<close>: the negation of the \<^verbatim>\<open>if\<close> condition.
\<close>

definition stops_loop :: "response_data \<Rightarrow> nat \<Rightarrow> bool" where
  "stops_loop d a = (case reference d of None \<Rightarrow> False
      | Some r \<Rightarrow> \<not> (status r = Processing \<and> a < maxAttempts))"

section \<open>Properties\<close>

lemmas setter_defs = log_def setData_def setLoading_def setError_def setReanalyzing_def
  setShowSuccessMessage_def

lemmas timer_defs = setTimeout_def setInterval_def drop_timer_def clearTimeout_def
  clearInterval_def

lemmas task_defs = fetchReport_def fetchReport_resolved_def fetchReport_rejected_def
  effect_def cleanup_def refresh_tick_def handleReanalyze_def finally_block_def
  reanalyze_resolved_def reanalyze_rejected_def pollForResults_def settled_def
  after_poll_def poll_catch_def poll_resolved_def success_clear_def

subsection \<open>The attempt counter\<close>

lemma attempts_timer_callback:
  "attempts s \<le> maxAttempts \<Longrightarrow> attempts (timer_callback t k s) \<le> maxAttempts"
  by (cases k) (simp_all add: setter_defs timer_defs task_defs)

lemma attempts_step: "attempts s \<le> maxAttempts \<Longrightarrow> attempts (step e s) \<le> maxAttempts"
  by (cases e)
     (simp_all add: setter_defs timer_defs task_defs attempts_timer_callback Let_def
        split: option.splits)

lemma attempts_run: "attempts s \<le> maxAttempts \<Longrightarrow> attempts (run evs s) \<le> maxAttempts"
  by (induction evs arbitrary: s) (simp_all add: attempts_step)

lemma attempts_mount: "attempts (mount i) = 0"
  by (simp add: mount_def setter_defs timer_defs task_defs Let_def)

text \<open>
  C8. In every state the report view reaches from its mount, under any sequence of
  events, the attempt counter is at most \<open>maxAttempts\<close>: it is reset to 0 when the
  settling delay elapses and incremented only under the guard
  \<^verbatim>\<open>attempts < maxAttempts\<close>.
\<close>

theorem attempts_never_exceed_maxAttempts: "attempts (run evs (mount i)) \<le> maxAttempts"
  by (rule attempts_run) (simp add: attempts_mount)

subsection \<open>The poll loop\<close>

lemma schedule_append: "schedule (xs @ ys) = schedule xs @ schedule ys"
  by (simp add: schedule_def)

lemma fetches_by_append: "fetches_by c (xs @ ys) = fetches_by c xs + fetches_by c ys"
  by (simp add: fetches_by_def)

lemma fetches_append: "fetches (xs @ ys) = fetches xs + fetches ys"
  by (simp add: fetches_def)

lemma mutations_append: "mutations (xs @ ys) = mutations xs @ mutations ys"
  by (simp add: mutations_def)

lemma schedule_simps:
  "schedule [] = []" "schedule (a # tr) = observe a @ schedule tr"
  by (simp_all add: schedule_def)

lemma fetches_by_simps:
  "fetches_by c [] = 0"
  "fetches_by c (a # tr) = (if is_fetch_by c a then Suc (fetches_by c tr) else fetches_by c tr)"
  by (simp_all add: fetches_by_def)

lemma fetches_simps:
  "fetches [] = 0"
  "fetches (a # tr) = (if is_fetch a then Suc (fetches tr) else fetches tr)"
  by (simp_all add: fetches_def)

lemma mutations_simps:
  "mutations [] = []"
  "mutations (a # tr) = (if is_mutation a then a # mutations tr else mutations tr)"
  by (simp_all add: mutations_def)

lemmas trace_simps = schedule_append fetches_by_append fetches_append mutations_append
  schedule_simps fetches_by_simps fetches_simps mutations_simps

lemma poll_resolved_processing:
  assumes "processing d" "attempts s < maxAttempts"
  shows "poll_resolved d s =
         setTimeout InterPollDelay 1000 (s\<lparr>attempts := Suc (attempts s), phase := PWaiting\<rparr>)"
  using assms by (simp add: poll_resolved_def processing_def split: option.splits)

lemma poll_waits:
  assumes "phase s = PFetching" "processing d" "attempts s < maxAttempts"
  shows "phase (step (PollResolved d) s) = PWaiting"
  using assms by (simp add: poll_resolved_processing setTimeout_def log_def)

lemma poll_iteration:
  assumes "phase s = PFetching" "processing d" "attempts s < maxAttempts"
  shows "step (TimerFired (newest (step (PollResolved d) s))) (step (PollResolved d) s) =
         polled_once s"
  using assms
  by (simp add: poll_resolved_processing newest_def setTimeout_def log_def drop_timer_def
      pollForResults_def polled_once_def)

lemma pollLoop_step:
  assumes "phase s = PFetching" "processing d" "attempts s < maxAttempts"
  shows "pollLoop (Resolves d # rs) s = pollLoop rs (polled_once s)"
  using assms poll_waits [OF assms] poll_iteration [OF assms]
  by (simp add: Let_def del: step.simps)

lemma pollLoop_processing:
  assumes "phase s = PFetching" "list_all processing ds" "attempts s + length ds \<le> maxAttempts"
  shows "phase (pollLoop (map Resolves ds) s) = PFetching \<and>
         attempts (pollLoop (map Resolves ds) s) = attempts s + length ds \<and>
         view (pollLoop (map Resolves ds) s) = view s \<and>
         isMounted (pollLoop (map Resolves ds) s) = isMounted s \<and>
         poll_id (pollLoop (map Resolves ds) s) = poll_id s \<and>
         mutations (trace (pollLoop (map Resolves ds) s)) = mutations (trace s) \<and>
         fetches_by Poller (trace (pollLoop (map Resolves ds) s)) =
           fetches_by Poller (trace s) + length ds \<and>
         schedule (trace (pollLoop (map Resolves ds) s)) =
           schedule (trace s) @ concat (replicate (length ds) [Wait 1000, Fetch])"
  using assms
proof (induction ds arbitrary: s)
  case Nil
  then show ?case by simp
next
  case (Cons d ds)
  from Cons.prems have d: "processing d" and lt: "attempts s < maxAttempts" by simp_all
  have unfold: "pollLoop (map Resolves (d # ds)) s = pollLoop (map Resolves ds) (polled_once s)"
    using pollLoop_step [OF Cons.prems(1) d lt] by simp
  have "phase (polled_once s) = PFetching" "list_all processing ds"
    "attempts (polled_once s) + length ds \<le> maxAttempts"
    using Cons.prems by (simp_all add: polled_once_def)
  from Cons.IH [OF this] show ?case
    unfolding unfold by (simp add: polled_once_def view_def trace_simps)
qed

lemma pollLoop_append:
  assumes "phase s = PFetching" "list_all processing ds" "attempts s + length ds \<le> maxAttempts"
  shows "pollLoop (map Resolves ds @ rs) s = pollLoop rs (pollLoop (map Resolves ds) s)"
  using assms
proof (induction ds arbitrary: s)
  case Nil
  then show ?case by simp
next
  case (Cons d ds)
  from Cons.prems have d: "processing d" and lt: "attempts s < maxAttempts" by simp_all
  have "phase (polled_once s) = PFetching" "list_all processing ds"
    "attempts (polled_once s) + length ds \<le> maxAttempts"
    using Cons.prems by (simp_all add: polled_once_def)
  from Cons.IH [OF this] show ?case
    using pollLoop_step [OF Cons.prems(1) d lt] by simp
qed

lemma poll_resolved_stops:
  assumes "stops_loop d (attempts s)" "isMounted s"
  shows "poll_resolved d s = after_poll (setData d s)"
  using assms by (auto simp add: poll_resolved_def stops_loop_def split: option.splits)

lemma after_poll_mounted:
  assumes "isMounted s"
  shows "after_poll s = s\<lparr>showSuccessMessage := True, successTimeoutRef := Some (next_timer s),
      timers := (next_timer s, SuccessClear) # timers s, next_timer := Suc (next_timer s),
      phase := PSucceeded, reanalyzing := False,
      trace := trace s @ [SetShowSuccessMessage True, SetTimeout (next_timer s) 3000,
        SetReanalyzing False]\<rparr>"
  using assms by (simp add: after_poll_def finally_block_def setTimeout_def setter_defs)

lemma poll_last:
  assumes "phase s = PFetching" "stops_loop d (attempts s)" "isMounted s"
  shows "phase (step (PollResolved d) s) = PSucceeded \<and>
         attempts (step (PollResolved d) s) = attempts s \<and>
         data (step (PollResolved d) s) = Some d \<and>
         error (step (PollResolved d) s) = error s \<and>
         showSuccessMessage (step (PollResolved d) s) \<and>
         \<not> reanalyzing (step (PollResolved d) s) \<and>
         fetches_by Poller (trace (step (PollResolved d) s)) = fetches_by Poller (trace s) \<and>
         schedule (trace (step (PollResolved d) s)) = schedule (trace s) @ [Wait 3000]"
  using assms
  by (simp add: poll_resolved_stops after_poll_mounted setData_def log_def trace_simps)

lemma pollLoop_last:
  assumes "phase s = PFetching" "stops_loop d (attempts s)" "isMounted s"
  shows "pollLoop (Resolves d # rs) s = step (PollResolved d) s"
  using assms poll_last [OF assms] by (simp add: Let_def del: step.simps)

lemma cycle_start:
  assumes "clickable s"
  shows "step (TimerFired (newest (step TriggerResolved (step Click s))))
           (step TriggerResolved (step Click s)) = started s"
  using assms
  by (simp add: handleReanalyze_def reanalyze_resolved_def settled_def pollForResults_def
      newest_def setTimeout_def drop_timer_def setter_defs started_def)

lemma run_cycle_ok:
  assumes "clickable s"
  shows "run_cycle True rs s = pollLoop rs (started s)"
  using cycle_start [OF assms] by (simp add: run_cycle_def Let_def del: step.simps)

lemma pollLoop_ends:
  assumes "phase s = PFetching" "isMounted s" "list_all processing ds"
    "attempts s + length ds \<le> maxAttempts" "stops_loop d (attempts s + length ds)"
  shows "phase (pollLoop (map Resolves ds @ Resolves d # rest) s) = PSucceeded \<and>
         attempts (pollLoop (map Resolves ds @ Resolves d # rest) s) = attempts s + length ds \<and>
         data (pollLoop (map Resolves ds @ Resolves d # rest) s) = Some d \<and>
         error (pollLoop (map Resolves ds @ Resolves d # rest) s) = error s \<and>
         showSuccessMessage (pollLoop (map Resolves ds @ Resolves d # rest) s) \<and>
         \<not> reanalyzing (pollLoop (map Resolves ds @ Resolves d # rest) s) \<and>
         fetches_by Poller (trace (pollLoop (map Resolves ds @ Resolves d # rest) s)) =
           fetches_by Poller (trace s) + length ds \<and>
         schedule (trace (pollLoop (map Resolves ds @ Resolves d # rest) s)) =
           schedule (trace s) @ concat (replicate (length ds) [Wait 1000, Fetch]) @ [Wait 3000]"
proof -
  let ?m = "pollLoop (map Resolves ds) s"
  note mid = pollLoop_processing [OF assms(1,3,4)]
  have m1: "phase ?m = PFetching" and m2: "stops_loop d (attempts ?m)" and m3: "isMounted ?m"
    using mid assms(2,5) by simp_all
  have "pollLoop (map Resolves ds @ Resolves d # rest) s = step (PollResolved d) ?m"
    using pollLoop_append [OF assms(1,3,4)] pollLoop_last [OF m1 m2 m3] by simp
  then show ?thesis
    using poll_last [OF m1 m2 m3] mid by (simp add: view_def)
qed

lemma started_facts:
  "phase (started s) = PFetching" "attempts (started s) = 0"
  "isMounted (started s) = isMounted s" "error (started s) = []"
  "fetches_by Poller (trace (started s)) = Suc (fetches_by Poller (trace s))"
  "schedule (trace (started s)) = schedule (trace s) @ [Wait 2000, Fetch]"
  by (simp_all add: started_def trace_simps)

lemma clickable_mounted: "clickable s \<Longrightarrow> isMounted s"
  by (simp add: clickable_def)

text \<open>
  C2 (amended). A cycle started by a click on an attached view, whose trigger is accepted
  and whose every \<^verbatim>\<open>getReference\<close> answers with a \<open>processing\<close> record, makes
  exactly \<open>maxAttempts + 1\<close> calls: the first after the settling delay of 2000 ms, each
  of the \<open>maxAttempts\<close> further ones after an inter-poll delay of 1000 ms. It then
  returns normally (\<open>PSucceeded\<close>) with the counter at \<open>maxAttempts\<close>, the last
  fetched record stored, its status still \<open>processing\<close>, and the error slot empty.
  Answers scripted beyond these are never asked for.
\<close>

theorem all_processing_polls_once_more_than_maxAttempts:
  assumes "clickable s" "list_all processing ds" "length ds = Suc maxAttempts"
  shows "phase (run_cycle True (map Resolves ds @ rest) s) = PSucceeded \<and>
         fetches_by Poller (trace (run_cycle True (map Resolves ds @ rest) s)) =
           fetches_by Poller (trace s) + Suc maxAttempts \<and>
         schedule (trace (run_cycle True (map Resolves ds @ rest) s)) =
           schedule (trace s) @ [Wait 2000, Fetch] @
             concat (replicate maxAttempts [Wait 1000, Fetch]) @ [Wait 3000] \<and>
         attempts (run_cycle True (map Resolves ds @ rest) s) = maxAttempts \<and>
         data (run_cycle True (map Resolves ds @ rest) s) = Some (last ds) \<and>
         error (run_cycle True (map Resolves ds @ rest) s) = []"
proof -
  from assms(3) have ne: "ds \<noteq> []" by auto
  then have split: "ds = butlast ds @ [last ds]" by simp
  have len: "length (butlast ds) = maxAttempts" using assms(3) by simp
  have all: "list_all processing (butlast ds)" and lst: "processing (last ds)"
    using assms(2) ne by (auto simp add: list_all_iff dest: in_set_butlastD)
  have stop: "stops_loop (last ds) (attempts (started s) + length (butlast ds))"
    using lst len
    by (auto simp add: stops_loop_def processing_def started_facts split: option.splits)
  have script: "map Resolves ds @ rest = map Resolves (butlast ds) @ Resolves (last ds) # rest"
    by (subst split) simp
  have bound: "attempts (started s) + length (butlast ds) \<le> maxAttempts"
    using len by (simp add: started_facts)
  have mounted: "isMounted (started s)"
    using assms(1) by (simp add: started_facts clickable_mounted)
  show ?thesis
    unfolding run_cycle_ok [OF assms(1)] script
    using pollLoop_ends [OF started_facts(1) mounted all bound stop, of rest] len
    by (simp add: started_facts)
qed

lemma ready_eval:
  "ready = \<lparr>route_id = 1, data = Some done_data, loading = False, error = [],
      reanalyzing = False, showSuccessMessage = False, isMounted = True,
      successTimeoutRef = None, interval = 1, phase = PIdle, attempts = 0, poll_id = 1,
      timers = [(1, RefreshTick None 1)], next_timer = 2, pending_reports = 0,
      trace = [GetReference 1 Effect, SetInterval 1 3000, SetData done_data,
        SetLoading False]\<rparr>"
  by (simp add: ready_def mount_def effect_def fetchReport_def fetchReport_resolved_def
      setInterval_def setter_defs)

lemma clickable_ready: "clickable ready"
  by (simp add: ready_eval clickable_def render_def done_data_def)

lemma processing_busy: "processing busy_data"
  by (simp add: processing_def busy_data_def)

lemma terminal_done: "terminal done_data"
  by (simp add: done_data_def)

theorem all_processing_polls_once_more_than_maxAttempts_witness:
  "clickable ready \<and> list_all processing (replicate 16 busy_data) \<and>
   length (replicate 16 busy_data) = Suc maxAttempts \<and>
   phase (run_cycle True (map Resolves (replicate 16 busy_data) @ [Rejects]) ready) = PSucceeded \<and>
   fetches_by Poller (trace (run_cycle True (map Resolves (replicate 16 busy_data) @ [Rejects]) ready)) = 16 \<and>
   data (run_cycle True (map Resolves (replicate 16 busy_data) @ [Rejects]) ready) = Some busy_data"
proof -
  have h2: "list_all processing (replicate 16 busy_data)"
    by (simp add: list_all_iff processing_busy)
  have h3: "length (replicate 16 busy_data) = Suc maxAttempts"
    by (simp add: maxAttempts_def)
  have tr: "fetches_by Poller (trace ready) = 0"
    by (simp add: ready_eval trace_simps)
  show ?thesis
    using all_processing_polls_once_more_than_maxAttempts [OF clickable_ready h2 h3, of "[Rejects]"]
      clickable_ready h2 h3 tr
    by (simp add: maxAttempts_def)
qed

text \<open>
  C2 as stated fails: with \<open>maxAttempts = 15\<close> and sixteen \<open>processing\<close> answers the
  poll loop makes sixteen calls, not fifteen.
\<close>

theorem sixteen_fetches_with_maxAttempts_fifteen:
  "maxAttempts = 15 \<and>
   fetches_by Poller (trace (run_cycle True (replicate 16 (Resolves busy_data)) ready)) = 16 \<and>
   phase (run_cycle True (replicate 16 (Resolves busy_data)) ready) = PSucceeded"
proof -
  have script: "replicate 16 (Resolves busy_data) =
      map Resolves (replicate 15 busy_data) @ Resolves busy_data # []"
    by (simp add: numeral_eq_Suc replicate_append_same)
  have all: "list_all processing (replicate 15 busy_data)"
    by (simp add: list_all_iff processing_busy)
  have bound: "attempts (started ready) + length (replicate 15 busy_data) \<le> maxAttempts"
    by (simp add: started_facts maxAttempts_def)
  have stop: "stops_loop busy_data (attempts (started ready) + length (replicate 15 busy_data))"
    by (simp add: stops_loop_def started_facts maxAttempts_def busy_data_def)
  have mounted: "isMounted (started ready)"
    by (simp add: started_facts clickable_mounted clickable_ready)
  have tr: "fetches_by Poller (trace ready) = 0"
    by (simp add: ready_eval trace_simps)
  show ?thesis
    unfolding run_cycle_ok [OF clickable_ready] script
    using pollLoop_ends [OF started_facts(1) mounted all bound stop, of "[]"] tr
    by (simp add: started_facts maxAttempts_def)
qed

subsection \<open>A rejected poll, a rejected trigger\<close>

lemma poll_catch_mounted:
  assumes "isMounted s"
  shows "poll_catch s = s\<lparr>error := ''Analysis may still be in progress. Please refresh.'',
      showSuccessMessage := True, successTimeoutRef := Some (next_timer s),
      timers := (next_timer s, SuccessClear) # timers s, next_timer := Suc (next_timer s),
      phase := PSucceeded, reanalyzing := False,
      trace := trace s @ [ConsoleError,
        SetError ''Analysis may still be in progress. Please refresh.'',
        SetShowSuccessMessage True, SetTimeout (next_timer s) 3000, SetReanalyzing False]\<rparr>"
  using assms by (simp add: poll_catch_def after_poll_mounted setError_def log_def)

lemma poll_catch_unmounted:
  assumes "\<not> isMounted s"
  shows "poll_catch s = s\<lparr>phase := PSucceeded, trace := trace s @ [ConsoleError]\<rparr>"
  using assms by (simp add: poll_catch_def after_poll_def finally_block_def log_def)

lemma pollLoop_rejects:
  assumes "phase s = PFetching"
  shows "pollLoop (Rejects # rest) s = step PollRejected s"
  using assms
  by (cases "isMounted s") (simp_all add: poll_catch_mounted poll_catch_unmounted)

lemma started_ready:
  "started ready = \<lparr>route_id = 1, data = Some done_data, loading = False, error = [],
      reanalyzing = True, showSuccessMessage = False, isMounted = True,
      successTimeoutRef = None, interval = 1, phase = PFetching, attempts = 0, poll_id = 1,
      timers = [(1, RefreshTick None 1)], next_timer = 3, pending_reports = 0,
      trace = [GetReference 1 Effect, SetInterval 1 3000, SetData done_data,
        SetLoading False, SetReanalyzing True, SetError [], SetShowSuccessMessage False,
        Reanalyze 1, SetTimeout 2 2000, GetReference 1 Poller]\<rparr>"
  by (simp add: started_def ready_eval)

text \<open>
  C3 as stated fails: when the first poll is rejected the loop is over after that one call,
  with the whole budget unused, and the error is shown.
\<close>

theorem first_poll_error_aborts_and_is_surfaced:
  "error (run_cycle True [Rejects, Resolves done_data] ready) =
     ''Analysis may still be in progress. Please refresh.'' \<and>
   fetches_by Poller (trace (run_cycle True [Rejects, Resolves done_data] ready)) = 1 \<and>
   attempts (run_cycle True [Rejects, Resolves done_data] ready) = 0 \<and>
   phase (run_cycle True [Rejects, Resolves done_data] ready) = PSucceeded"
  unfolding run_cycle_ok [OF clickable_ready]
  by (simp add: started_ready poll_catch_mounted trace_simps)

text \<open>
  C5 fails on the code. Report 1 is displayed with a completed record; the user clicks
  Reanalyze, the trigger is accepted, the settling delay elapses and the first poll is
  rejected. The full report is then rendered with the success message and the error banner
  together.
\<close>

theorem success_and_error_banners_together:
  "render (run [ReportResolved done_data, Click, TriggerResolved, TimerFired 2, PollRejected]
     (mount 1)) = Report True ''Analysis may still be in progress. Please refresh.''"
  by (simp add: mount_def task_defs timer_defs setter_defs render_def clickable_def
      done_data_def)

lemma click_closed:
  assumes "clickable s"
  shows "step Click s = s\<lparr>reanalyzing := True, error := [], showSuccessMessage := False,
      poll_id := route_id s, phase := PTriggering,
      trace := trace s @ [SetReanalyzing True, SetError [], SetShowSuccessMessage False,
        Reanalyze (route_id s)]\<rparr>"
  using assms by (simp add: handleReanalyze_def setter_defs)

lemma reanalyze_rejected_mounted:
  assumes "isMounted s"
  shows "reanalyze_rejected s = s\<lparr>error := ''Failed to reanalyze. Please try again.'',
      phase := PFailed, reanalyzing := False,
      trace := trace s @ [SetError ''Failed to reanalyze. Please try again.'', ConsoleError,
        SetReanalyzing False]\<rparr>"
  using assms by (simp add: reanalyze_rejected_def finally_block_def setter_defs)

subsection \<open>Failed fetches and the cached record\<close>

lemma fetchReport_rejected_appended:
  "appended s (fetchReport_rejected s) =
     (if isMounted s then [SetError ''Failed to load report'', SetLoading False] else [])"
  by (simp add: appended_def fetchReport_rejected_def setter_defs)

text \<open>
  C9. A rejected fetch never writes the cached record. In \<^verbatim>\<open>fetchReport\<close> the
  \<^verbatim>\<open>catch\<close> branch calls only \<^verbatim>\<open>setError\<close> and \<^verbatim>\<open>setLoading\<close>
  (and nothing once the view is detached); in \<^verbatim>\<open>pollForResults\<close> the turn that
  handles the rejection makes no \<^verbatim>\<open>setData\<close> call. In both, \<open>data\<close> is what
  it was.
\<close>

theorem fetch_error_keeps_data:
  "data (step PollRejected s) = data s \<and>
   filter is_setData (trace (step PollRejected s)) = filter is_setData (trace s) \<and>
   data (step ReportRejected s) = data s \<and>
   appended s (step ReportRejected s) =
     (if 0 < pending_reports s \<and> isMounted s
      then [SetError ''Failed to load report'', SetLoading False] else [])"
  by (cases "isMounted s")
     (simp_all add: poll_catch_mounted poll_catch_unmounted fetchReport_rejected_appended,
      simp_all add: fetchReport_rejected_def setter_defs appended_def)

subsection \<open>The refresher installed at the first mount\<close>

lemma list_all_filter: "list_all P xs \<Longrightarrow> list_all P (filter Q xs)"
  by (simp add: list_all_iff)

lemma idle_tick_callback:
  assumes "never_refreshed s" "map_of (timers s) t = Some k"
  shows "never_refreshed (timer_callback t k s)"
proof -
  have "idle_tick (t, k)"
    using assms by (auto simp add: never_refreshed_def list_all_iff dest: map_of_SomeD)
  then show ?thesis
    using assms(1)
    by (cases k)
       (simp_all add: never_refreshed_def settled_def pollForResults_def success_clear_def
          refresh_tick_def setter_defs drop_timer_def trace_simps list_all_filter)
qed

lemma never_refreshed_step:
  assumes "never_refreshed s" "\<not> is_navigate e"
  shows "never_refreshed (step e s)"
proof (cases e)
  case (TimerFired t)
  then show ?thesis
    using assms(1) by (simp add: idle_tick_callback split: option.splits)
next
  case (Navigate j)
  then show ?thesis using assms(2) by simp
qed (use assms(1) in \<open>simp_all add: never_refreshed_def setter_defs timer_defs task_defs
      trace_simps Let_def list_all_filter split: option.splits\<close>)

lemma never_refreshed_run:
  assumes "never_refreshed s" "\<not> list_ex is_navigate evs"
  shows "never_refreshed (run evs s)"
  using assms by (induction evs arbitrary: s) (simp_all add: never_refreshed_step)

lemma mount_eval:
  "mount i = \<lparr>route_id = i, data = None, loading = True, error = [], reanalyzing = False,
      showSuccessMessage = False, isMounted = True, successTimeoutRef = None, interval = 1,
      phase = PIdle, attempts = 0, poll_id = i, timers = [(1, RefreshTick None i)],
      next_timer = 2, pending_reports = 1,
      trace = [GetReference i Effect, SetInterval 1 3000]\<rparr>"
  by (simp add: mount_def effect_def fetchReport_def setInterval_def log_def)

lemma never_refreshed_mount: "never_refreshed (mount i)"
  by (simp add: mount_eval never_refreshed_def trace_simps)

subsection \<open>The refresher and the poller\<close>

text \<open>
  C4 (amended). A tick of the background refresher calls \<^verbatim>\<open>getReference\<close> exactly
  when the record captured by its closure, when the effect was installed, has status
  \<open>processing\<close>; it does so in every phase of the poller, which it leaves as it
  is. In particular a tick whose closure captured no record, as the one installed at the
  first mount, fetches in no phase.
\<close>

theorem refresher_tick_ignores_phase:
  assumes "map_of (timers s) t = Some (RefreshTick captured i)"
  shows "phase (step (TimerFired t) s) = phase s \<and>
         appended s (step (TimerFired t) s) =
           (if is_processing captured then [GetReference i Refresher] else [])"
  using assms by (simp add: refresh_tick_def fetchReport_def log_def appended_def)

lemma overlap_eval:
  "overlapped = \<lparr>route_id = 2, data = Some done_data, loading = False, error = [],
      reanalyzing = True, showSuccessMessage = False, isMounted = True,
      successTimeoutRef = None, interval = 2, phase = PFetching, attempts = 0, poll_id = 2,
      timers = [(2, RefreshTick (Some busy_data) 2)], next_timer = 4, pending_reports = 0,
      trace = [GetReference 1 Effect, SetInterval 1 3000, SetData busy_data, SetLoading False,
        ClearInterval 1, GetReference 2 Effect, SetInterval 2 3000, SetData done_data,
        SetLoading False, SetReanalyzing True, SetError [], SetShowSuccessMessage False,
        Reanalyze 2, SetTimeout 3 2000, GetReference 2 Poller]\<rparr>"
  by (simp add: overlapped_def mount_eval task_defs timer_defs setter_defs render_def
      clickable_def done_data_def busy_data_def)

theorem refresher_tick_ignores_phase_witness:
  "map_of (timers (overlapped)) 2 = Some (RefreshTick (Some busy_data) 2) \<and>
   phase (step (TimerFired 2) (overlapped)) = PFetching \<and>
   appended (overlapped) (step (TimerFired 2) (overlapped)) =
     [GetReference 2 Refresher]"
proof -
  have h: "map_of (timers (overlapped)) 2 = Some (RefreshTick (Some busy_data) 2)"
    by (simp add: overlap_eval)
  show ?thesis
    using refresher_tick_ignores_phase [OF h] h
    by (simp add: overlap_eval busy_data_def del: step.simps)
qed

text \<open>
  C4 as stated fails: after a change of the route parameter while a \<open>processing\<close>
  record was displayed, the refresher fetches report 2 while the poller's own fetch of
  report 2 is in flight.
\<close>

theorem refresher_fetches_during_poll:
  "phase (overlapped) = PFetching \<and>
   last (trace (overlapped)) = GetReference 2 Poller \<and>
   trace (step (TimerFired 2) (overlapped)) =
     trace (overlapped) @ [GetReference 2 Refresher]"
  by (simp add: overlap_eval refresh_tick_def fetchReport_def log_def busy_data_def)

subsection \<open>Detaching the view\<close>

lemma below_Suc: "below n r \<Longrightarrow> below (Suc n) r"
  by (cases r) simp_all

lemma refresh_is_filter:
  "list_all (refresh_is h) ts \<Longrightarrow> list_all (refresh_is h') (filter (other_handle h) ts)"
  by (induction ts) (auto elim: refresh_is.elims)

lemma refresh_is_filter2:
  "list_all (refresh_is h) ts \<Longrightarrow>
   list_all (refresh_is h') (filter (\<lambda>x. other_handle h x \<and> other_handle u x) ts)"
  by (induction ts) (auto elim: refresh_is.elims)

lemma effect_closed:
  "effect s = s\<lparr>isMounted := True, pending_reports := Suc (pending_reports s),
      interval := next_timer s,
      timers := (next_timer s, RefreshTick (data s) (route_id s)) # timers s,
      next_timer := Suc (next_timer s),
      trace := trace s @ [GetReference (route_id s) Effect, SetInterval (next_timer s) 3000]\<rparr>"
  by (simp add: effect_def fetchReport_def setInterval_def log_def)

lemma cleanup_closed:
  "cleanup s = s\<lparr>isMounted := False,
      timers := without (successTimeoutRef s) (filter (other_handle (interval s)) (timers s)),
      trace := trace s @ ClearInterval (interval s) # clear_log (successTimeoutRef s)\<rparr>"
  by (cases "successTimeoutRef s") (simp_all add: cleanup_def timer_defs log_def)

lemma mutations_clear_log: "mutations (clear_log r) = []"
  by (cases r) (simp_all add: trace_simps)

lemma without_all: "list_all P ts \<Longrightarrow> list_all P (without r ts)"
  by (cases r) (simp_all add: list_all_filter)

lemma handles_ok_callback:
  assumes "handles_ok s"
  shows "handles_ok (timer_callback t k s)"
  using assms
  by (cases k)
     (simp_all add: handles_ok_def settled_def pollForResults_def success_clear_def
        refresh_tick_def fetchReport_def setter_defs drop_timer_def list_all_filter)

lemma handles_ok_step:
  assumes "handles_ok s"
  shows "handles_ok (step e s)"
proof (cases e)
  case (TimerFired t)
  then show ?thesis
    using assms by (simp add: handles_ok_callback split: option.splits)
next
  case (Navigate j)
  then show ?thesis
    using assms
    by (simp add: handles_ok_def effect_closed cleanup_closed refresh_is_filter without_all
        below_Suc)
next
  case Unmount
  then show ?thesis
    using assms
    by (simp add: handles_ok_def cleanup_closed list_all_filter without_all)
qed (use assms in \<open>simp_all add: handles_ok_def setter_defs timer_defs task_defs Let_def
      list_all_filter below_Suc split: option.splits\<close>)

lemma handles_ok_run: "handles_ok s \<Longrightarrow> handles_ok (run evs s)"
  by (induction evs arbitrary: s) (simp_all add: handles_ok_step)

lemma handles_ok_mount: "handles_ok (mount i)"
  by (simp add: mount_eval handles_ok_def)

lemma cleared_filter: "cleared ts r \<Longrightarrow> cleared (filter P ts) r"
  by (cases r) (auto simp add: map_of_eq_None_iff)

lemma cleared_cons: "below n r \<Longrightarrow> cleared ts r \<Longrightarrow> cleared ((n, k) # ts) r"
  by (cases r) auto

lemma cleared_without: "cleared (without r ts) r"
  by (cases r) (auto simp add: map_of_eq_None_iff)

lemma one_shot_cleanup:
  "list_all (refresh_is h) ts \<Longrightarrow> list_all one_shot (filter (other_handle h) ts)"
  by (induction ts) (auto elim: refresh_is.elims)

lemma one_shot_lookup:
  "list_all one_shot ts \<Longrightarrow> map_of ts t \<noteq> Some (RefreshTick captured i)"
  by (induction ts) (auto split: if_splits)

lemma one_shot_pending: "list_all one_shot ts \<Longrightarrow> filter is_refresh ts = []"
  by (induction ts) (auto elim: one_shot.elims)

lemma unmount_detaches:
  assumes "isMounted s" "handles_ok s"
  shows "detached (step Unmount s) \<and> view (step Unmount s) = view s \<and>
         mutations (trace (step Unmount s)) = mutations (trace s) \<and>
         successTimeoutRef (step Unmount s) = successTimeoutRef s"
  using assms
  by (simp add: cleanup_closed detached_def handles_ok_def view_def
      trace_simps mutations_clear_log cleared_without without_all one_shot_cleanup)

lemma detached_callback:
  assumes "detached s" "map_of (timers s) t = Some k"
  shows "detached (timer_callback t k s) \<and> view (timer_callback t k s) = view s \<and>
         mutations (trace (timer_callback t k s)) = mutations (trace s) \<and>
         successTimeoutRef (timer_callback t k s) = successTimeoutRef s"
proof (cases k)
  case (RefreshTick captured i)
  then show ?thesis
    using assms one_shot_lookup [of "timers s" t captured i]
    by (simp add: detached_def)
qed (use assms(1) in \<open>simp_all add: detached_def view_def settled_def
      pollForResults_def success_clear_def drop_timer_def log_def trace_simps cleared_filter
      list_all_filter\<close>)

lemma detached_step:
  assumes "detached s"
  shows "detached (step e s) \<and> view (step e s) = view s \<and>
         mutations (trace (step e s)) = mutations (trace s) \<and>
         successTimeoutRef (step e s) = successTimeoutRef s"
proof (cases e)
  case (TimerFired t)
  then show ?thesis
    using assms by (simp add: detached_callback split: option.splits)
next
  case (PollResolved d)
  then show ?thesis
    using assms
    by (auto simp add: detached_def view_def poll_resolved_def
        poll_catch_unmounted after_poll_def finally_block_def setTimeout_def log_def
        trace_simps cleared_cons below_Suc split: option.splits)
next
  case Click
  then show ?thesis
    using assms by (simp add: detached_def clickable_def)
qed (use assms in \<open>simp_all add: detached_def view_def
      fetchReport_resolved_def fetchReport_rejected_def reanalyze_resolved_def
      reanalyze_rejected_def finally_block_def poll_catch_unmounted setTimeout_def log_def
      trace_simps cleared_cons below_Suc\<close>)

lemma detached_run:
  assumes "detached s"
  shows "detached (run evs s) \<and> view (run evs s) = view s \<and>
         mutations (trace (run evs s)) = mutations (trace s) \<and>
         successTimeoutRef (run evs s) = successTimeoutRef s"
  using assms
proof (induction evs arbitrary: s)
  case Nil
  then show ?case by simp
next
  case (Cons e evs)
  from detached_step [OF Cons.prems, of e] Cons.IH [of "step e s"] show ?case by simp
qed

subsection \<open>One invocation at a time\<close>

lemma awaited_filter: "awaited p ts \<Longrightarrow> awaited p (filter Q ts)"
  by (induction p ts rule: awaited.induct) auto

lemma awaited_drop:
  assumes "awaited p (filter poller_timer ts)"
  shows "awaited p (filter (\<lambda>x. Q x \<and> poller_timer x) ts)"
proof -
  have "filter (\<lambda>x. Q x \<and> poller_timer x) ts = filter Q (filter poller_timer ts)"
    by (simp add: conj_commute)
  with awaited_filter [OF assms, of Q] show ?thesis by simp
qed

lemma awaited_drop2:
  assumes "awaited p (filter poller_timer ts)"
  shows "awaited p (filter (\<lambda>x. Q x \<and> R x \<and> poller_timer x) ts)"
  using awaited_drop [OF assms, of "\<lambda>x. Q x \<and> R x"] by (simp add: conj_assoc)

lemma awaited_only:
  assumes "awaited p xs" "(t, k) \<in> set xs"
  shows "xs = [(t, k)] \<and> ((p = PSettling \<and> k = SettlingDelay) \<or> (p = PWaiting \<and> k = InterPollDelay))"
  using assms by (induction p xs rule: awaited.induct) auto

lemma awaited_fired:
  assumes "awaited p (filter poller_timer ts)" "map_of ts t = Some k" "poller_timer (t, k)"
  shows "filter (\<lambda>x. other_handle t x \<and> poller_timer x) ts = [] \<and>
         ((p = PSettling \<and> k = SettlingDelay) \<or> (p = PWaiting \<and> k = InterPollDelay))"
proof -
  have "(t, k) \<in> set (filter poller_timer ts)"
    using assms(2,3) by (auto dest: map_of_SomeD)
  from awaited_only [OF assms(1) this]
  have one: "filter poller_timer ts = [(t, k)]"
    and ph: "(p = PSettling \<and> k = SettlingDelay) \<or> (p = PWaiting \<and> k = InterPollDelay)"
    by blast+
  have "filter (\<lambda>x. other_handle t x \<and> poller_timer x) ts =
        filter (other_handle t) (filter poller_timer ts)"
    by (simp add: conj_commute)
  with one ph show ?thesis by simp
qed

lemma awaited_none:
  assumes "awaited p xs" "p \<noteq> PSettling" "p \<noteq> PWaiting"
  shows "xs = []"
  using assms by (induction p xs rule: awaited.induct) auto

lemma after_poll_unmounted:
  assumes "\<not> isMounted s"
  shows "after_poll s = s\<lparr>phase := PSucceeded\<rparr>"
  using assms by (simp add: after_poll_def finally_block_def)

lemma fetches_by_clear_log: "fetches_by c (clear_log r) = 0"
  by (cases r) (simp_all add: trace_simps)

lemma one_cycle_callback:
  assumes "one_cycle s" "map_of (timers s) t = Some k"
  shows "one_cycle (timer_callback t k s)"
proof (cases k)
  case SettlingDelay
  with awaited_fired [of "phase s" "timers s" t k] assms show ?thesis
    by (simp add: one_cycle_def settled_def pollForResults_def drop_timer_def log_def)
next
  case InterPollDelay
  with awaited_fired [of "phase s" "timers s" t k] assms show ?thesis
    by (simp add: one_cycle_def pollForResults_def drop_timer_def log_def)
next
  case SuccessClear
  with assms(1) show ?thesis
    by (simp add: one_cycle_def success_clear_def drop_timer_def setter_defs awaited_drop)
next
  case (RefreshTick captured i)
  with assms(1) show ?thesis
    by (simp add: one_cycle_def refresh_tick_def fetchReport_def log_def)
qed

lemma one_cycle_idle:
  assumes "one_cycle s" "phase s \<noteq> PSettling" "phase s \<noteq> PWaiting"
  shows "filter poller_timer (timers s) = []"
  using assms awaited_none [of "phase s" "filter poller_timer (timers s)"]
  by (simp add: one_cycle_def)

lemma one_cycle_clickable:
  assumes "one_cycle s" "clickable s"
  shows "\<not> in_flight (phase s)"
  using assms by (auto simp add: one_cycle_def clickable_def split: if_splits)

lemma one_cycle_step:
  assumes "one_cycle s"
  shows "one_cycle (step e s)"
proof (cases e)
  case Click
  show ?thesis
  proof (cases "clickable s")
    case True
    from one_cycle_clickable [OF assms True]
    have "phase s \<noteq> PSettling" "phase s \<noteq> PWaiting" by auto
    from one_cycle_idle [OF assms this] Click True show ?thesis
      by (simp add: handleReanalyze_def setter_defs one_cycle_def)
  next
    case False
    with Click assms show ?thesis by simp
  qed
next
  case TriggerResolved
  show ?thesis
  proof (cases "phase s = PTriggering")
    case True
    then have "phase s \<noteq> PSettling" "phase s \<noteq> PWaiting" by auto
    from one_cycle_idle [OF assms this] TriggerResolved True assms show ?thesis
      by (simp add: one_cycle_def reanalyze_resolved_def setTimeout_def log_def)
  next
    case False
    with TriggerResolved assms show ?thesis by simp
  qed
next
  case TriggerRejected
  show ?thesis
  proof (cases "phase s = PTriggering")
    case True
    then have "phase s \<noteq> PSettling" "phase s \<noteq> PWaiting" by auto
    from one_cycle_idle [OF assms this] TriggerRejected True show ?thesis
      by (simp add: one_cycle_def reanalyze_rejected_def finally_block_def setter_defs Let_def)
  next
    case False
    with TriggerRejected assms show ?thesis by simp
  qed
next
  case (PollResolved d)
  show ?thesis
  proof (cases "phase s = PFetching")
    case True
    then have "phase s \<noteq> PSettling" "phase s \<noteq> PWaiting" by auto
    from one_cycle_idle [OF assms this] PollResolved True assms show ?thesis
      by (cases "isMounted s")
         (auto simp add: one_cycle_def poll_resolved_def poll_catch_mounted
            poll_catch_unmounted after_poll_mounted after_poll_unmounted setTimeout_def
            setter_defs split: option.splits)
  next
    case False
    with PollResolved assms show ?thesis by simp
  qed
next
  case PollRejected
  show ?thesis
  proof (cases "phase s = PFetching")
    case True
    then have "phase s \<noteq> PSettling" "phase s \<noteq> PWaiting" by auto
    from one_cycle_idle [OF assms this] PollRejected True show ?thesis
      by (cases "isMounted s")
         (simp_all add: one_cycle_def poll_catch_mounted poll_catch_unmounted)
  next
    case False
    with PollRejected assms show ?thesis by simp
  qed
next
  case (ReportResolved d)
  with assms show ?thesis
    by (simp add: one_cycle_def fetchReport_resolved_def setter_defs Let_def)
next
  case ReportRejected
  with assms show ?thesis
    by (simp add: one_cycle_def fetchReport_rejected_def setter_defs Let_def)
next
  case (TimerFired t)
  with assms show ?thesis
    by (simp add: one_cycle_callback split: option.splits)
next
  case (Navigate j)
  with assms show ?thesis
    by (cases "successTimeoutRef s")
       (simp_all add: one_cycle_def effect_closed cleanup_closed awaited_drop awaited_drop2)
next
  case Unmount
  with assms show ?thesis
    by (cases "successTimeoutRef s")
       (simp_all add: one_cycle_def cleanup_closed awaited_drop awaited_drop2)
qed

lemma one_cycle_run: "one_cycle s \<Longrightarrow> one_cycle (run evs s)"
  by (induction evs arbitrary: s) (simp_all add: one_cycle_step)

lemma one_cycle_mount: "one_cycle (mount i)"
  by (simp add: mount_eval one_cycle_def)

lemma busy_not_clickable:
  assumes "in_flight (phase (run evs (mount i)))"
  shows "\<not> clickable (run evs (mount i))"
  using one_cycle_clickable [OF one_cycle_run [OF one_cycle_mount]] assms by blast

lemma no_poller_timer_lookup:
  assumes "filter poller_timer ts = []" "map_of ts t = Some k"
  shows "k \<noteq> SettlingDelay \<and> k \<noteq> InterPollDelay"
proof -
  from assms(2) have "(t, k) \<in> set ts" by (rule map_of_SomeD)
  with assms(1) have "\<not> poller_timer (t, k)" by (auto simp add: filter_empty_conv)
  then show ?thesis by auto
qed

lemma quiet_callback:
  assumes "filter poller_timer (timers s) = []" "map_of (timers s) t = Some k"
  shows "phase (timer_callback t k s) = phase s \<and>
         fetches_by Poller (trace (timer_callback t k s)) = fetches_by Poller (trace s)"
  using no_poller_timer_lookup [OF assms]
  by (cases k)
     (simp_all add: success_clear_def refresh_tick_def fetchReport_def drop_timer_def
        setter_defs trace_simps)

lemma quiet_step:
  assumes "one_cycle s" "phase s \<noteq> PSettling" "phase s \<noteq> PFetching" "phase s \<noteq> PWaiting"
    "\<not> is_trigger e" "\<not> is_click e"
  shows "phase (step e s) = phase s \<and>
         fetches_by Poller (trace (step e s)) = fetches_by Poller (trace s)"
proof (cases e)
  case (TimerFired t)
  with quiet_callback [OF one_cycle_idle [OF assms(1,2,4)]] show ?thesis
    by (simp split: option.splits)
next
  case (Navigate j)
  then show ?thesis
    by (simp add: effect_closed cleanup_closed trace_simps fetches_by_clear_log)
next
  case Unmount
  then show ?thesis
    by (simp add: cleanup_closed trace_simps fetches_by_clear_log)
qed (use assms in \<open>simp_all add: fetchReport_resolved_def fetchReport_rejected_def setter_defs
      trace_simps Let_def\<close>)

lemma triggering_step:
  assumes "one_cycle s" "phase s = PTriggering" "\<not> is_trigger e"
  shows "phase (step e s) = PTriggering \<and>
         fetches_by Poller (trace (step e s)) = fetches_by Poller (trace s)"
proof (cases "is_click e")
  case True
  then have "e = Click" by (cases e) simp_all
  moreover have "\<not> clickable s"
    using one_cycle_clickable [OF assms(1)] assms(2) by auto
  ultimately show ?thesis using assms(2) by simp
next
  case False
  with quiet_step [OF assms(1), of e] assms(2,3) show ?thesis by simp
qed

lemma triggering_run:
  assumes "one_cycle s" "phase s = PTriggering" "\<not> list_ex is_trigger evs"
  shows "one_cycle (run evs s) \<and> phase (run evs s) = PTriggering \<and>
         fetches_by Poller (trace (run evs s)) = fetches_by Poller (trace s)"
  using assms
proof (induction evs arbitrary: s)
  case Nil
  then show ?case by simp
next
  case (Cons e evs)
  from Cons.prems have e: "\<not> is_trigger e" and rest: "\<not> list_ex is_trigger evs" by simp_all
  note st = triggering_step [OF Cons.prems(1,2) e]
  from Cons.IH [OF one_cycle_step [OF Cons.prems(1)] conjunct1 [OF st] rest] st
  show ?case by simp
qed

lemma failed_step:
  assumes "one_cycle s" "phase s = PFailed" "\<not> is_click e"
  shows "phase (step e s) = PFailed \<and>
         fetches_by Poller (trace (step e s)) = fetches_by Poller (trace s)"
proof (cases "is_trigger e")
  case True
  then have "e = TriggerResolved \<or> e = TriggerRejected" by (cases e) simp_all
  then show ?thesis using assms(2) by auto
next
  case False
  with quiet_step [OF assms(1), of e] assms(2,3) show ?thesis by simp
qed

lemma failed_run:
  assumes "one_cycle s" "phase s = PFailed" "\<not> list_ex is_click evs"
  shows "phase (run evs s) = PFailed \<and>
         fetches_by Poller (trace (run evs s)) = fetches_by Poller (trace s)"
  using assms
proof (induction evs arbitrary: s)
  case Nil
  then show ?case by simp
next
  case (Cons e evs)
  from Cons.prems have e: "\<not> is_click e" and rest: "\<not> list_ex is_click evs" by simp_all
  note st = failed_step [OF Cons.prems(1,2) e]
  from Cons.IH [OF one_cycle_step [OF Cons.prems(1)] conjunct1 [OF st] rest] st
  show ?case by simp
qed

lemma run_append: "run (xs @ ys) s = run ys (run xs s)"
  by (induction xs arbitrary: s) simp_all

lemma rejected_step:
  assumes "phase s = PTriggering"
  shows "phase (step TriggerRejected s) = PFailed \<and>
         fetches_by Poller (trace (step TriggerRejected s)) = fetches_by Poller (trace s)"
  using assms
  by (simp add: reanalyze_rejected_def finally_block_def setter_defs trace_simps Let_def)

text \<open>
  C7. A cycle started by a click on an attached view whose \<^verbatim>\<open>reanalyze\<close> call is
  rejected issues no \<^verbatim>\<open>getReference\<close> call and sets no timer, whatever answers
  the backend would have given: it goes from the trigger straight to the outer
  \<^verbatim>\<open>catch\<close> (\<open>PFailed\<close>), which surfaces the trigger failure in the error slot,
  and \<^verbatim>\<open>finally\<close> clears the reanalyzing flag. The same holds of the poller under
  any interleaving: whatever events arrive while the trigger is pending and, short of
  another click, after its rejection, the invocation ends in \<open>PFailed\<close> and
  \<^verbatim>\<open>pollForResults\<close> has made no call.
\<close>

theorem trigger_failure_never_polls:
  assumes "clickable (run before (mount i))"
    and "\<not> list_ex is_trigger during" and "\<not> list_ex is_click after"
  shows "phase (run_cycle False rs (run before (mount i))) = PFailed \<and>
         fetches (trace (run_cycle False rs (run before (mount i)))) =
           fetches (trace (run before (mount i))) \<and>
         schedule (trace (run_cycle False rs (run before (mount i)))) =
           schedule (trace (run before (mount i))) \<and>
         timers (run_cycle False rs (run before (mount i))) = timers (run before (mount i)) \<and>
         error (run_cycle False rs (run before (mount i))) =
           ''Failed to reanalyze. Please try again.'' \<and>
         \<not> reanalyzing (run_cycle False rs (run before (mount i))) \<and>
         phase (run (Click # during @ TriggerRejected # after) (run before (mount i))) = PFailed \<and>
         fetches_by Poller
           (trace (run (Click # during @ TriggerRejected # after) (run before (mount i)))) =
           fetches_by Poller (trace (run before (mount i)))"
proof -
  let ?s = "run before (mount i)"
  let ?c = "step Click ?s"
  let ?d = "run during ?c"
  let ?r = "step TriggerRejected ?d"
  have inv: "one_cycle ?s"
    by (rule one_cycle_run) (rule one_cycle_mount)
  have c1: "one_cycle ?c" by (rule one_cycle_step) (rule inv)
  have c2: "phase ?c = PTriggering"
    and c3: "fetches_by Poller (trace ?c) = fetches_by Poller (trace ?s)"
    using assms(1) by (simp_all add: click_closed trace_simps del: step.simps)
  from triggering_run [OF c1 c2 assms(2)]
  have d1: "one_cycle ?d" and d2: "phase ?d = PTriggering"
    and d3: "fetches_by Poller (trace ?d) = fetches_by Poller (trace ?c)"
    by blast+
  have r1: "one_cycle ?r" by (rule one_cycle_step) (rule d1)
  from rejected_step [OF d2]
  have r2: "phase ?r = PFailed"
    and r3: "fetches_by Poller (trace ?r) = fetches_by Poller (trace ?d)"
    by blast+
  from failed_run [OF r1 r2 assms(3)]
  have a2: "phase (run after ?r) = PFailed"
    and a3: "fetches_by Poller (trace (run after ?r)) = fetches_by Poller (trace ?r)"
    by blast+
  have unfold: "run (Click # during @ TriggerRejected # after) ?s = run after ?r"
    by (simp add: run_append del: step.simps)
  have seq: "phase (run_cycle False rs ?s) = PFailed \<and>
         fetches (trace (run_cycle False rs ?s)) = fetches (trace ?s) \<and>
         schedule (trace (run_cycle False rs ?s)) = schedule (trace ?s) \<and>
         timers (run_cycle False rs ?s) = timers ?s \<and>
         error (run_cycle False rs ?s) = ''Failed to reanalyze. Please try again.'' \<and>
         \<not> reanalyzing (run_cycle False rs ?s)"
    using assms(1) clickable_mounted [OF assms(1)]
    by (simp add: run_cycle_def click_closed reanalyze_rejected_mounted trace_simps
        del: step.simps(1))
  show ?thesis
    unfolding unfold using seq a2 a3 r3 d3 c3 by simp
qed

theorem trigger_failure_never_polls_witness:
  "clickable (run [ReportResolved done_data] (mount 1)) \<and>
   \<not> list_ex is_trigger [TimerFired 1, Navigate 2, ReportRejected] \<and>
   \<not> list_ex is_click [PollResolved busy_data, Unmount, TimerFired 3] \<and>
   phase (run_cycle False [Resolves done_data] (run [ReportResolved done_data] (mount 1))) =
     PFailed \<and>
   fetches (trace (run_cycle False [Resolves done_data]
     (run [ReportResolved done_data] (mount 1)))) = 1 \<and>
   phase (run (Click # [TimerFired 1, Navigate 2, ReportRejected] @
       TriggerRejected # [PollResolved busy_data, Unmount, TimerFired 3])
     (run [ReportResolved done_data] (mount 1))) = PFailed \<and>
   fetches_by Poller (trace (run (Click # [TimerFired 1, Navigate 2, ReportRejected] @
       TriggerRejected # [PollResolved busy_data, Unmount, TimerFired 3])
     (run [ReportResolved done_data] (mount 1)))) = 0"
proof -
  have h1: "clickable (run [ReportResolved done_data] (mount 1))"
    using clickable_ready by (simp add: ready_def)
  have h2: "\<not> list_ex is_trigger [TimerFired 1, Navigate 2, ReportRejected]" by simp
  have h3: "\<not> list_ex is_click [PollResolved busy_data, Unmount, TimerFired 3]" by simp
  have tr: "fetches (trace (run [ReportResolved done_data] (mount 1))) = 1"
    "fetches_by Poller (trace (run [ReportResolved done_data] (mount 1))) = 0"
    using ready_eval by (simp_all add: ready_def trace_simps)
  from trigger_failure_never_polls [OF h1 h2 h3, of "[Resolves done_data]"] h1 tr
  show ?thesis by (simp del: step.simps run.simps)
qed

subsection \<open>What the cleanup leaves pending\<close>

lemma fresh_below_Suc: "list_all (fresh_below n) ts \<Longrightarrow> list_all (fresh_below (Suc n)) ts"
  by (induction ts) auto

lemma kept_new_handle:
  "list_all (fresh_below n) ts \<Longrightarrow> list_all (kept h r) ts \<Longrightarrow> list_all (kept n r) ts"
  by (induction ts) auto

lemma kept_new_ref:
  "list_all (fresh_below n) ts \<Longrightarrow> list_all (kept h r) ts \<Longrightarrow> list_all (kept h (Some n)) ts"
  by (induction ts) auto

lemma handles_fresh_callback:
  assumes "handles_fresh s"
  shows "handles_fresh (timer_callback t k s)"
  using assms
  by (cases k)
     (simp_all add: handles_fresh_def settled_def pollForResults_def success_clear_def
        refresh_tick_def fetchReport_def setter_defs drop_timer_def list_all_filter)

lemma handles_fresh_step:
  assumes "handles_fresh s"
  shows "handles_fresh (step e s)"
proof (cases e)
  case (TimerFired t)
  then show ?thesis
    using assms by (simp add: handles_fresh_callback split: option.splits)
next
  case (Navigate j)
  then show ?thesis
    using assms
    by (auto simp add: handles_fresh_def effect_closed cleanup_closed without_all
        list_all_filter below_Suc fresh_below_Suc kept_new_handle)
next
  case Unmount
  then show ?thesis
    using assms
    by (simp add: handles_fresh_def cleanup_closed list_all_filter without_all)
next
  case (PollResolved d)
  then show ?thesis
    using assms
    by (cases "isMounted s")
       (auto simp add: handles_fresh_def poll_resolved_def poll_catch_mounted
          poll_catch_unmounted after_poll_mounted after_poll_unmounted setTimeout_def
          setter_defs below_Suc fresh_below_Suc kept_new_ref elim: below.elims
          split: option.splits)
next
  case PollRejected
  then show ?thesis
    using assms
    by (cases "isMounted s")
       (auto simp add: handles_fresh_def poll_catch_mounted poll_catch_unmounted
          below_Suc fresh_below_Suc kept_new_ref)
next
  case TriggerResolved
  then show ?thesis
    using assms
    by (auto simp add: handles_fresh_def reanalyze_resolved_def setTimeout_def log_def
        below_Suc fresh_below_Suc elim: below.elims)
qed (use assms in \<open>simp_all add: handles_fresh_def handleReanalyze_def reanalyze_rejected_def
      finally_block_def fetchReport_resolved_def fetchReport_rejected_def setter_defs
      Let_def\<close>)

lemma handles_fresh_run: "handles_fresh s \<Longrightarrow> handles_fresh (run evs s)"
  by (induction evs arbitrary: s) (simp_all add: handles_fresh_step)

lemma handles_fresh_mount: "handles_fresh (mount i)"
  by (simp add: mount_eval handles_fresh_def)

lemma kept_filter:
  "list_all (kept h r) ts \<Longrightarrow>
   filter poller_timer (filter (other_handle h) ts) = filter poller_timer ts"
  by (induction ts) (auto split: if_splits)

lemma kept_without:
  "list_all (kept h r) ts \<Longrightarrow> filter poller_timer (without r ts) = filter poller_timer ts"
  by (cases r; induction ts) (auto split: if_splits)

lemma cleanup_keeps_poller_timers:
  assumes "handles_fresh s"
  shows "filter poller_timer (timers (cleanup s)) = filter poller_timer (timers s)"
proof -
  from assms have k: "list_all (kept (interval s) (successTimeoutRef s)) (timers s)"
    by (simp add: handles_fresh_def)
  then have "list_all (kept (interval s) (successTimeoutRef s))
      (filter (other_handle (interval s)) (timers s))"
    by (rule list_all_filter)
  from kept_without [OF this] kept_filter [OF k]
  have "filter poller_timer
      (without (successTimeoutRef s) (filter (other_handle (interval s)) (timers s))) =
        filter poller_timer (timers s)"
    by (rule trans)
  moreover have "timers (cleanup s) =
      without (successTimeoutRef s) (filter (other_handle (interval s)) (timers s))"
    by (simp add: cleanup_closed)
  ultimately show ?thesis by simp
qed

subsection \<open>After the detach\<close>

text \<open>
  C1 (amended). Let the view be detached in any state it reaches from its mount, in
  particular while a reanalysis cycle is triggering, settling or polling. Whatever happens
  afterwards, no state setter is called any more and the rendered state stays as it was at
  the detach; the refresher's interval is cancelled, and so is the success timer whose
  handle \<^verbatim>\<open>successTimeoutRef\<close> holds. A pending settling or inter-poll timer is not
  cancelled by the cleanup: it still fires and the poller goes on, without touching the
  state.
\<close>

theorem detach_makes_continuations_inert:
  assumes "isMounted (run evs (mount i))"
  shows "mutations (trace (run later (step Unmount (run evs (mount i))))) =
           mutations (trace (run evs (mount i))) \<and>
         view (run later (step Unmount (run evs (mount i)))) = view (run evs (mount i)) \<and>
         pending_refreshers (run later (step Unmount (run evs (mount i)))) = [] \<and>
         cleared (timers (run later (step Unmount (run evs (mount i)))))
           (successTimeoutRef (run evs (mount i))) \<and>
         filter poller_timer (timers (step Unmount (run evs (mount i)))) =
           filter poller_timer (timers (run evs (mount i)))"
proof -
  let ?s = "run evs (mount i)"
  let ?u = "run later (step Unmount ?s)"
  have ok: "handles_ok ?s"
    by (rule handles_ok_run) (rule handles_ok_mount)
  have fresh: "handles_fresh ?s"
    by (rule handles_fresh_run) (rule handles_fresh_mount)
  note u = unmount_detaches [OF assms ok]
  from u have d: "detached (step Unmount ?s)" by (rule conjunct1)
  note r = detached_run [OF d, of later]
  from r have du: "detached ?u" and vu: "view ?u = view (step Unmount ?s)"
    and mu: "mutations (trace ?u) = mutations (trace (step Unmount ?s))"
    and ru: "successTimeoutRef ?u = successTimeoutRef (step Unmount ?s)"
    by blast+
  from u have vs: "view (step Unmount ?s) = view ?s"
    and ms: "mutations (trace (step Unmount ?s)) = mutations (trace ?s)"
    and rs: "successTimeoutRef (step Unmount ?s) = successTimeoutRef ?s"
    by blast+
  from du have "cleared (timers ?u) (successTimeoutRef ?u)" and "list_all one_shot (timers ?u)"
    unfolding detached_def by blast+
  then have "cleared (timers ?u) (successTimeoutRef ?s)" and "pending_refreshers ?u = []"
    unfolding ru rs pending_refreshers_def by (blast intro: one_shot_pending)+
  moreover have "view ?u = view ?s" and "mutations (trace ?u) = mutations (trace ?s)"
    unfolding vu vs mu ms by (rule refl)+
  moreover have "filter poller_timer (timers (step Unmount ?s)) = filter poller_timer (timers ?s)"
    using cleanup_keeps_poller_timers [OF fresh] assms by simp
  ultimately show ?thesis by blast
qed

lemma settling_eval:
  "settling = \<lparr>route_id = 1, data = Some done_data, loading = False, error = [],
      reanalyzing = True, showSuccessMessage = False, isMounted = True,
      successTimeoutRef = None, interval = 1, phase = PSettling, attempts = 0, poll_id = 1,
      timers = [(2, SettlingDelay), (1, RefreshTick None 1)], next_timer = 3,
      pending_reports = 0,
      trace = [GetReference 1 Effect, SetInterval 1 3000, SetData done_data,
        SetLoading False, SetReanalyzing True, SetError [], SetShowSuccessMessage False,
        Reanalyze 1, SetTimeout 2 2000]\<rparr>"
  by (simp add: settling_def mount_eval task_defs timer_defs setter_defs render_def
      clickable_def done_data_def)

theorem detach_makes_continuations_inert_witness:
  "isMounted (run [ReportResolved done_data, Click, TriggerResolved] (mount 1)) \<and>
   mutations (trace (run [TimerFired 2, PollResolved busy_data, TimerFired 3, PollRejected]
     (step Unmount (run [ReportResolved done_data, Click, TriggerResolved] (mount 1))))) =
     [SetData done_data, SetLoading False, SetReanalyzing True, SetError [],
      SetShowSuccessMessage False] \<and>
   view (run [TimerFired 2, PollResolved busy_data, TimerFired 3, PollRejected]
     (step Unmount (run [ReportResolved done_data, Click, TriggerResolved] (mount 1)))) =
     (Some done_data, False, [], True, False) \<and>
   fetches_by Poller (trace (run [TimerFired 2, PollResolved busy_data, TimerFired 3, PollRejected]
     (step Unmount (run [ReportResolved done_data, Click, TriggerResolved] (mount 1))))) = 2 \<and>
   filter poller_timer
     (timers (step Unmount (run [ReportResolved done_data, Click, TriggerResolved] (mount 1)))) =
     [(2, SettlingDelay)]"
proof -
  have m: "isMounted (run [ReportResolved done_data, Click, TriggerResolved] (mount 1))"
    by (simp add: mount_eval task_defs timer_defs setter_defs render_def clickable_def
        done_data_def)
  show ?thesis
    using detach_makes_continuations_inert [OF m,
        of "[TimerFired 2, PollResolved busy_data, TimerFired 3, PollRejected]"] m
    by (simp add: mount_eval task_defs timer_defs setter_defs render_def clickable_def
        done_data_def busy_data_def maxAttempts_def view_def trace_simps)
qed

text \<open>
  C1 as stated fails: detached while settling, the view leaves the settling delay
  scheduled; it fires and the poller makes its call.
\<close>

theorem settling_timer_survives_detach:
  "phase settling = PSettling \<and>
   timers (step Unmount settling) = [(2, SettlingDelay)] \<and>
   trace (step (TimerFired 2) (step Unmount settling)) =
     trace (step Unmount settling) @ [GetReference 1 Poller]"
  by (simp add: settling_eval cleanup_closed settled_def pollForResults_def drop_timer_def
      log_def)

subsection \<open>After the poll loop returned\<close>

lemma succeeded_step:
  assumes "one_cycle s" "phase s = PSucceeded" "\<not> is_click e"
  shows "phase (step e s) = PSucceeded \<and>
         fetches_by Poller (trace (step e s)) = fetches_by Poller (trace s)"
proof (cases "is_trigger e")
  case True
  then have "e = TriggerResolved \<or> e = TriggerRejected" by (cases e) simp_all
  then show ?thesis using assms(2) by auto
next
  case False
  with quiet_step [OF assms(1), of e] assms(2,3) show ?thesis by simp
qed

lemma succeeded_run:
  assumes "one_cycle s" "phase s = PSucceeded" "\<not> list_ex is_click evs"
  shows "phase (run evs s) = PSucceeded \<and>
         fetches_by Poller (trace (run evs s)) = fetches_by Poller (trace s)"
  using assms
proof (induction evs arbitrary: s)
  case Nil
  then show ?case by simp
next
  case (Cons e evs)
  from Cons.prems have e: "\<not> is_click e" and rest: "\<not> list_ex is_click evs" by simp_all
  note st = succeeded_step [OF Cons.prems(1,2) e]
  from Cons.IH [OF one_cycle_step [OF Cons.prems(1)] conjunct1 [OF st] rest] st
  show ?case by simp
qed

lemma one_cycle_pollLoop: "one_cycle s \<Longrightarrow> one_cycle (pollLoop rs s)"
proof (induction rs arbitrary: s)
  case Nil
  then show ?case by simp
next
  case (Cons r rs)
  have a: "one_cycle (step (settles r) s)"
    by (rule one_cycle_step) (rule Cons.prems)
  have b: "one_cycle (step (TimerFired (newest (step (settles r) s))) (step (settles r) s))"
    by (rule one_cycle_step) (rule a)
  from Cons.IH [OF b] a Cons.prems show ?case
    by (simp add: Let_def del: step.simps)
qed

lemma one_cycle_run_cycle: "one_cycle s \<Longrightarrow> one_cycle (run_cycle ok rs s)"
  by (simp add: run_cycle_def Let_def one_cycle_pollLoop one_cycle_step del: step.simps)

text \<open>
  C3 (amended). A rejected \<^verbatim>\<open>getReference\<close> during polling ends the poll loop at
  once: the error is logged to the console, \<^verbatim>\<open>pollForResults\<close> returns without
  another call and asks for none of the answers scripted after it, the attempt counter is
  left as it is, and while the view is attached the error is surfaced through the error
  slot. The loop is over for good: whatever events arrive afterwards, short of another
  click, the invocation stays returned and the poller makes no further
  \<^verbatim>\<open>getReference\<close> call.
\<close>

theorem poll_error_ends_the_loop:
  assumes "phase (run before (mount i)) = PFetching" and "\<not> list_ex is_click later"
  shows "phase (step PollRejected (run before (mount i))) = PSucceeded \<and>
         attempts (step PollRejected (run before (mount i))) = attempts (run before (mount i)) \<and>
         fetches (trace (step PollRejected (run before (mount i)))) =
           fetches (trace (run before (mount i))) \<and>
         hd (appended (run before (mount i)) (step PollRejected (run before (mount i)))) =
           ConsoleError \<and>
         error (step PollRejected (run before (mount i))) =
           (if isMounted (run before (mount i))
            then ''Analysis may still be in progress. Please refresh.''
            else error (run before (mount i))) \<and>
         pollLoop (Rejects # rest) (run before (mount i)) =
           step PollRejected (run before (mount i)) \<and>
         phase (run later (step PollRejected (run before (mount i)))) = PSucceeded \<and>
         fetches_by Poller (trace (run later (step PollRejected (run before (mount i))))) =
           fetches_by Poller (trace (run before (mount i)))"
proof -
  let ?s = "run before (mount i)"
  let ?r = "step PollRejected ?s"
  have inv: "one_cycle ?s"
    by (rule one_cycle_run) (rule one_cycle_mount)
  have r1: "one_cycle ?r" by (rule one_cycle_step) (rule inv)
  have turn: "phase ?r = PSucceeded \<and> attempts ?r = attempts ?s \<and>
      fetches (trace ?r) = fetches (trace ?s) \<and>
      fetches_by Poller (trace ?r) = fetches_by Poller (trace ?s) \<and>
      hd (appended ?s ?r) = ConsoleError \<and>
      error ?r = (if isMounted ?s then ''Analysis may still be in progress. Please refresh.''
                  else error ?s)"
    using assms(1)
    by (cases "isMounted ?s")
       (simp_all add: poll_catch_mounted poll_catch_unmounted appended_def trace_simps)
  then have r2: "phase ?r = PSucceeded" by (rule conjunct1)
  note after = succeeded_run [OF r1 r2 assms(2)]
  from turn after pollLoop_rejects [OF assms(1), of rest] show ?thesis
    by (simp del: step.simps pollLoop.simps)
qed

theorem poll_error_ends_the_loop_witness:
  "phase (run [ReportResolved done_data, Click, TriggerResolved, TimerFired 2] (mount 1)) =
     PFetching \<and>
   \<not> list_ex is_click [TimerFired 3, PollResolved busy_data, TimerFired 1, TimerFired 4] \<and>
   phase (step PollRejected
     (run [ReportResolved done_data, Click, TriggerResolved, TimerFired 2] (mount 1))) =
     PSucceeded \<and>
   fetches_by Poller (trace (run [TimerFired 3, PollResolved busy_data, TimerFired 1, TimerFired 4]
     (step PollRejected
       (run [ReportResolved done_data, Click, TriggerResolved, TimerFired 2] (mount 1))))) = 1"
proof -
  have h1: "phase (run [ReportResolved done_data, Click, TriggerResolved, TimerFired 2]
      (mount 1)) = PFetching"
    by (simp add: mount_eval task_defs timer_defs setter_defs render_def clickable_def
        done_data_def)
  have h2: "\<not> list_ex is_click [TimerFired 3, PollResolved busy_data, TimerFired 1, TimerFired 4]"
    by simp
  have tr: "fetches_by Poller
      (trace (run [ReportResolved done_data, Click, TriggerResolved, TimerFired 2] (mount 1))) = 1"
    by (simp add: mount_eval task_defs timer_defs setter_defs render_def clickable_def
        done_data_def trace_simps)
  from poll_error_ends_the_loop [OF h1 h2, of "[]"] h1 h2 tr show ?thesis
    by (simp del: step.simps run.simps pollLoop.simps)
qed

text \<open>
  C6. When the first \<open>k - 1\<close> answers are \<open>processing\<close> records and the \<open>k\<close>-th
  answer, \<open>k \<le> maxAttempts\<close>, is a record whose status is \<open>completed\<close> or
  \<open>failed\<close>, the poll loop stops there. The cycle has made exactly \<open>k\<close> calls,
  one after the settling delay and each further one after an inter-poll delay, whatever
  answers were scripted after it; it stores that record, shows the success message with its
  auto-clear timer, clears the reanalyzing flag and leaves the error slot empty; it has
  returned through the end of the \<^verbatim>\<open>try\<close> block (\<open>PSucceeded\<close>). Whatever
  events arrive afterwards, short of another click, the invocation stays returned and the
  poller makes no further \<^verbatim>\<open>getReference\<close> call.
\<close>

theorem terminal_status_stops_polling:
  assumes "clickable (run before (mount i))" and "list_all processing ds"
    and "Suc (length ds) \<le> maxAttempts" and "terminal d" and "\<not> list_ex is_click later"
  shows "phase (run_cycle True (map Resolves ds @ Resolves d # rest) (run before (mount i))) =
           PSucceeded \<and>
         fetches_by Poller
           (trace (run_cycle True (map Resolves ds @ Resolves d # rest) (run before (mount i)))) =
           fetches_by Poller (trace (run before (mount i))) + Suc (length ds) \<and>
         schedule
           (trace (run_cycle True (map Resolves ds @ Resolves d # rest) (run before (mount i)))) =
           schedule (trace (run before (mount i))) @ [Wait 2000, Fetch] @
             concat (replicate (length ds) [Wait 1000, Fetch]) @ [Wait 3000] \<and>
         attempts (run_cycle True (map Resolves ds @ Resolves d # rest) (run before (mount i))) =
           length ds \<and>
         data (run_cycle True (map Resolves ds @ Resolves d # rest) (run before (mount i))) =
           Some d \<and>
         error (run_cycle True (map Resolves ds @ Resolves d # rest) (run before (mount i))) =
           [] \<and>
         showSuccessMessage
           (run_cycle True (map Resolves ds @ Resolves d # rest) (run before (mount i))) \<and>
         \<not> reanalyzing
           (run_cycle True (map Resolves ds @ Resolves d # rest) (run before (mount i))) \<and>
         phase (run later
           (run_cycle True (map Resolves ds @ Resolves d # rest) (run before (mount i)))) =
           PSucceeded \<and>
         fetches_by Poller (trace (run later
           (run_cycle True (map Resolves ds @ Resolves d # rest) (run before (mount i))))) =
           fetches_by Poller (trace (run before (mount i))) + Suc (length ds)"
proof -
  let ?s = "run before (mount i)"
  let ?c = "run_cycle True (map Resolves ds @ Resolves d # rest) ?s"
  have inv: "one_cycle ?s"
    by (rule one_cycle_run) (rule one_cycle_mount)
  have c1: "one_cycle ?c" by (rule one_cycle_run_cycle) (rule inv)
  have stop: "stops_loop d (attempts (started ?s) + length ds)"
    using assms(4) by (auto simp add: stops_loop_def split: option.splits)
  have bound: "attempts (started ?s) + length ds \<le> maxAttempts"
    using assms(3) by (simp add: started_facts)
  have mounted: "isMounted (started ?s)"
    using assms(1) by (simp add: started_facts clickable_mounted)
  have cycle: "phase ?c = PSucceeded \<and>
      fetches_by Poller (trace ?c) = fetches_by Poller (trace ?s) + Suc (length ds) \<and>
      schedule (trace ?c) = schedule (trace ?s) @ [Wait 2000, Fetch] @
        concat (replicate (length ds) [Wait 1000, Fetch]) @ [Wait 3000] \<and>
      attempts ?c = length ds \<and> data ?c = Some d \<and> error ?c = [] \<and>
      showSuccessMessage ?c \<and> \<not> reanalyzing ?c"
    unfolding run_cycle_ok [OF assms(1)]
    using pollLoop_ends [OF started_facts(1) mounted assms(2) bound stop, of rest]
    by (simp add: started_facts)
  then have c2: "phase ?c = PSucceeded" by (rule conjunct1)
  note after = succeeded_run [OF c1 c2 assms(5)]
  from cycle after show ?thesis by simp
qed

theorem terminal_status_stops_polling_witness:
  "clickable (run [ReportResolved done_data] (mount 1)) \<and>
   list_all processing [busy_data, busy_data] \<and>
   Suc (length [busy_data, busy_data]) \<le> maxAttempts \<and> terminal done_data \<and>
   \<not> list_ex is_click [TimerFired 5, TimerFired 1, PollResolved busy_data, TimerFired 4] \<and>
   fetches_by Poller (trace (run_cycle True
      (map Resolves [busy_data, busy_data] @ Resolves done_data # [Resolves busy_data])
      (run [ReportResolved done_data] (mount 1)))) = 3 \<and>
   data (run_cycle True
      (map Resolves [busy_data, busy_data] @ Resolves done_data # [Resolves busy_data])
      (run [ReportResolved done_data] (mount 1))) = Some done_data \<and>
   fetches_by Poller (trace (run [TimerFired 5, TimerFired 1, PollResolved busy_data, TimerFired 4]
     (run_cycle True
      (map Resolves [busy_data, busy_data] @ Resolves done_data # [Resolves busy_data])
      (run [ReportResolved done_data] (mount 1))))) = 3"
proof -
  have h1: "clickable (run [ReportResolved done_data] (mount 1))"
    using clickable_ready by (simp add: ready_def)
  have h2: "list_all processing [busy_data, busy_data]"
    by (simp add: processing_busy)
  have h3: "Suc (length [busy_data, busy_data]) \<le> maxAttempts"
    by (simp add: maxAttempts_def)
  have h5: "\<not> list_ex is_click [TimerFired 5, TimerFired 1, PollResolved busy_data, TimerFired 4]"
    by simp
  have tr: "fetches_by Poller (trace (run [ReportResolved done_data] (mount 1))) = 0"
    using ready_eval by (simp add: ready_def trace_simps)
  from terminal_status_stops_polling [OF h1 h2 h3 terminal_done h5, of "[Resolves busy_data]"]
    h1 h2 h3 terminal_done tr
  show ?thesis by (simp del: step.simps run.simps pollLoop.simps)
qed

subsection \<open>The interval of the first mount\<close>

lemma first_tick_Suc:
  "1 < n \<Longrightarrow> list_all (first_tick i) ts \<Longrightarrow> list_all (first_tick i) ((n, k) # ts)"
  by simp

lemma first_interval_callback:
  assumes "first_interval i s"
  shows "first_interval i (timer_callback t k s)"
  using assms
  by (cases k)
     (simp_all add: first_interval_def settled_def pollForResults_def success_clear_def
        refresh_tick_def fetchReport_def setter_defs drop_timer_def list_all_filter)

lemma first_interval_step:
  assumes "first_interval i s"
  shows "first_interval i (step e s)"
proof (cases e)
  case (TimerFired t)
  then show ?thesis
    using assms by (simp add: first_interval_callback split: option.splits)
next
  case (Navigate j)
  then show ?thesis
    using assms
    by (auto simp add: first_interval_def effect_closed cleanup_closed without_all
        list_all_filter)
next
  case Unmount
  then show ?thesis
    using assms
    by (simp add: first_interval_def cleanup_closed list_all_filter without_all)
next
  case (PollResolved d)
  then show ?thesis
    using assms
    by (cases "isMounted s")
       (auto simp add: first_interval_def poll_resolved_def poll_catch_mounted
          poll_catch_unmounted after_poll_mounted after_poll_unmounted setTimeout_def
          setter_defs split: option.splits)
next
  case PollRejected
  then show ?thesis
    using assms
    by (cases "isMounted s")
       (auto simp add: first_interval_def poll_catch_mounted poll_catch_unmounted)
next
  case TriggerResolved
  then show ?thesis
    using assms
    by (auto simp add: first_interval_def reanalyze_resolved_def setTimeout_def log_def)
qed (use assms in \<open>simp_all add: first_interval_def handleReanalyze_def reanalyze_rejected_def
      finally_block_def fetchReport_resolved_def fetchReport_rejected_def setter_defs
      Let_def\<close>)

lemma first_interval_run: "first_interval i s \<Longrightarrow> first_interval i (run evs s)"
  by (induction evs arbitrary: s) (simp_all add: first_interval_step)

lemma first_interval_mount: "first_interval i (mount i)"
  by (simp add: mount_eval first_interval_def)

lemma first_interval_tick:
  assumes "first_interval i s"
  shows "step (TimerFired 1) s = s"
proof (cases "map_of (timers s) 1")
  case None
  then show ?thesis by simp
next
  case (Some k)
  then have "(1, k) \<in> set (timers s)" by (rule map_of_SomeD)
  with assms have "first_tick i (1, k)"
    by (auto simp add: first_interval_def list_all_iff)
  then have "k = RefreshTick None i" by simp
  with Some show ?thesis by (simp add: refresh_tick_def)
qed

lemma same_route_step:
  assumes "never_refreshed s" "route_id s = i" "\<not> changes_id i e"
  shows "never_refreshed (step e s) \<and> route_id (step e s) = i"
proof (cases e)
  case (Navigate j)
  with assms(2,3) have "step e s = s" by simp
  with assms(1,2) show ?thesis by simp
next
  case (TimerFired t)
  have "route_id (timer_callback t k s) = route_id s" for k
    by (cases k)
       (simp_all add: settled_def pollForResults_def success_clear_def refresh_tick_def
          fetchReport_def setter_defs drop_timer_def)
  with TimerFired never_refreshed_step [OF assms(1), of e] assms(2) show ?thesis
    by (simp split: option.splits)
next
  case Unmount
  with never_refreshed_step [OF assms(1), of e] assms(2) show ?thesis
    by (simp add: cleanup_closed)
next
  case (PollResolved d)
  with never_refreshed_step [OF assms(1), of e] assms(2) show ?thesis
    by (cases "isMounted s")
       (auto simp add: poll_resolved_def poll_catch_mounted poll_catch_unmounted
          after_poll_mounted after_poll_unmounted setTimeout_def setter_defs
          split: option.splits)
next
  case PollRejected
  with never_refreshed_step [OF assms(1), of e] assms(2) show ?thesis
    by (cases "isMounted s") (simp_all add: poll_catch_mounted poll_catch_unmounted)
qed (use never_refreshed_step [OF assms(1), of e] assms(2) in
    \<open>simp_all add: handleReanalyze_def reanalyze_resolved_def reanalyze_rejected_def
      finally_block_def fetchReport_resolved_def fetchReport_rejected_def setTimeout_def
      setter_defs Let_def\<close>)

lemma same_route_run:
  assumes "never_refreshed s" "route_id s = i" "\<not> list_ex (changes_id i) evs"
  shows "never_refreshed (run evs s)"
  using assms
proof (induction evs arbitrary: s)
  case Nil
  then show ?case by simp
next
  case (Cons e evs)
  from Cons.prems have e: "\<not> changes_id i e" and rest: "\<not> list_ex (changes_id i) evs"
    by simp_all
  note st = same_route_step [OF Cons.prems(1,2) e]
  from Cons.IH [OF conjunct1 [OF st] conjunct2 [OF st] rest] show ?case by simp
qed

lemma route_id_mount: "route_id (mount i) = i"
  by (simp add: mount_eval)

text \<open>
  C10 (amended). The interval callback installed by the effect at the first mount is a
  closure over the \<^verbatim>\<open>data\<close> of the first render, which is null. Its guard
  \<^verbatim>\<open>data?.reference?.status === 'processing'\<close> is therefore false at every tick:
  in every state the view reaches, a tick of that interval does nothing. As long as the
  route parameter does not change, the refresher makes no \<^verbatim>\<open>getReference\<close>
  call, whatever records are loaded meanwhile.
\<close>

theorem refresher_of_first_mount_never_fetches:
  assumes "\<not> list_ex (changes_id i) evs"
  shows "timers (mount i) = [(1, RefreshTick None i)] \<and>
         is_processing None = False \<and>
         step (TimerFired 1) (run anything (mount i)) = run anything (mount i) \<and>
         fetches_by Refresher (trace (run evs (mount i))) = 0"
  using same_route_run [OF never_refreshed_mount route_id_mount assms]
    first_interval_tick [OF first_interval_run [OF first_interval_mount, of i anything]]
  by (simp add: mount_eval never_refreshed_def del: step.simps)

theorem refresher_of_first_mount_never_fetches_witness:
  "\<not> list_ex (changes_id 1)
      [ReportResolved busy_data, TimerFired 1, Navigate 1, TimerFired 1] \<and>
   data (run [ReportResolved busy_data, TimerFired 1, Navigate 1, TimerFired 1] (mount 1)) =
     Some busy_data \<and>
   fetches_by Refresher
     (trace (run [ReportResolved busy_data, TimerFired 1, Navigate 1, TimerFired 1] (mount 1))) = 0 \<and>
   step (TimerFired 1) (run [ReportResolved busy_data, Navigate 2] (mount 1)) =
     run [ReportResolved busy_data, Navigate 2] (mount 1)"
  using refresher_of_first_mount_never_fetches
    [of 1 "[ReportResolved busy_data, TimerFired 1, Navigate 1, TimerFired 1]"
        "[ReportResolved busy_data, Navigate 2]"]
  by (simp add: mount_eval fetchReport_resolved_def refresh_tick_def setter_defs
      cleanup_closed effect_closed)

text \<open>
  C10 as stated fails: in one and the same mount, a change of the route parameter while a
  \<open>processing\<close> record is displayed installs the effect again, its interval captures
  that record, and its tick fetches.
\<close>

theorem refresher_fetches_after_id_change:
  "isMounted (run [ReportResolved busy_data, Navigate 2, TimerFired 2] (mount 1)) \<and>
   fetches_by Refresher
     (trace (run [ReportResolved busy_data, Navigate 2, TimerFired 2] (mount 1))) = 1"
  by (simp add: mount_eval fetchReport_resolved_def fetchReport_def refresh_tick_def
      setter_defs cleanup_closed effect_closed trace_simps busy_data_def)

end
